theory Spec2Isabelle
  imports Main "HOL-Library.Finite_Map"
begin

section \<open>Data model of main.go\<close>

text \<open>
  The program fetches photos \<open>1 .. requests\<close> from a remote server, one goroutine per
  attempt, and a single aggregator goroutine stores the parsed photos in a map and
  respawns failed attempts.  A \<open>[]byte\<close> is a list of byte values.
\<close>

type_synonym bytes = "nat list"

text \<open>
  \<open>type Response struct { Message string; Body []byte; Time float64 }\<close>.  The field
  \<open>Time\<close> holds the elapsed time of the attempt, \<open>time.Since(start)\<close>; the model keeps
  the duration as an integer and leaves the conversion to seconds out.
\<close>

record Response =
  Message :: string
  Body :: bytes
  Time :: int

text \<open>\<open>type Node struct { ID int; Attempts int }\<close>\<close>

record Node =
  ID :: int
  Attempts :: int

text \<open>
  \<open>type Photo struct { ID int; Title string; Url string; Thumbnail string }\<close>; the
  field \<open>ID\<close> of a photo is written \<open>Photo_ID\<close> to keep it apart from \<open>Node.ID\<close>.
\<close>

record Photo =
  Photo_ID :: int
  Title :: string
  Url :: string
  Thumbnail :: string

subsection \<open>Standard output\<close>

text \<open>
  One value per line the program writes: \<open>fmt.Println("Photos:")\<close>,
  \<open>fmt.Println(photo.ID, photo.Thumbnail)\<close>, \<open>fmt.Println("Total:", len(*photos))\<close>, the
  line with the running time (its value comes from the clock and is not modelled), and
  \<open>fmt.Println(node.ID, "Retrying...", node.Attempts)\<close>.
\<close>

datatype line =
    Photos_header
  | Photo_line int string
  | Total_line nat
  | Elapsed_line
  | Retrying_line int int

subsection \<open>The reporting stage: \<open>print\<close>\<close>

text \<open>
  \<open>for i := 0; i < len(*photos); i++ { photo, exists := (*photos)[i+1]; if !exists
  { continue }; fmt.Println(photo.ID, photo.Thumbnail) }\<close>.  The map \<open>map[int]*Photo\<close>
  is a finite map and \<open>len\<close> is the number of its keys.
\<close>

text \<open>The call \<open>fmt.Println(photo.ID, photo.Thumbnail)\<close>.\<close>

definition photo_line :: "Photo \<Rightarrow> line" where
  "photo_line photo = Photo_line (Photo_ID photo) (Thumbnail photo)"

type_synonym store = "(int, Photo) fmap"

definition len :: "store \<Rightarrow> nat" where
  "len photos = fcard (fmdom photos)"

function print_loop :: "store \<Rightarrow> nat \<Rightarrow> line list" where
  "print_loop photos i =
     (if i < len photos then
        (case fmlookup photos (int i + 1) of
           None \<Rightarrow> print_loop photos (i + 1)
         | Some photo \<Rightarrow> photo_line photo # print_loop photos (i + 1))
      else [])"
  by pat_completeness auto
termination
  by (relation "measure (\<lambda>(photos, i). len photos - i)") auto

declare print_loop.simps [simp del]

definition print :: "store \<Rightarrow> line list" where
  "print photos =
     [Photos_header] @ print_loop photos 0 @ [Total_line (len photos), Elapsed_line]"

section \<open>The collaborators\<close>

text \<open>
  What one run of \<open>fetch\<close> gets from the network: \<open>http.NewRequestWithContext\<close> fails;
  \<open>client.Do\<close> fails (transport failure, or the one second deadline of the context is
  exceeded); or \<open>client.Do\<close> returns a response with a status code, \<open>io.ReadAll\<close> of its
  body fails or returns the bytes, and the clock tells the time the attempt took.
\<close>

datatype read_result = Read_error | Read_ok bytes

datatype reply =
    NewRequest_error
  | Do_error
  | Do_ok int read_result int

text \<open>\<open>http.StatusOK\<close>\<close>

definition StatusOK :: int where
  "StatusOK = 200"

text \<open>
  The run configuration and the two collaborators.  \<open>requests\<close> is the local constant of
  \<open>main\<close> (\<open>requests := 4500\<close> in the source, \<open>requests_default\<close> below).  \<open>net id k\<close> is the network's answer to the request
  for photo \<open>id\<close> made when \<open>k\<close> earlier attempts for it have failed; in one run every such
  request is made at most once, so a function describes any behaviour of the network.
  \<open>Unmarshal\<close> is \<open>json.Unmarshal\<close> into an empty \<open>Photo\<close>: \<open>None\<close> is its error.
\<close>

record env =
  requests :: nat
  net :: "int \<Rightarrow> int \<Rightarrow> reply"
  Unmarshal :: "bytes \<Rightarrow> Photo option"

definition requests_default :: nat where
  "requests_default = 4500"

text \<open>\<open>func parse(body *[]byte) (*Photo, error)\<close>: \<open>None\<close> is \<open>(nil, err)\<close>.\<close>

definition parse :: "env \<Rightarrow> bytes \<Rightarrow> Photo option" where
  "parse e body = (case Unmarshal e body of None \<Rightarrow> None | Some photo \<Rightarrow> Some photo)"

section \<open>The goroutines\<close>

text \<open>
  A message on one of the two unbuffered channels: a pointer to a \<open>Node\<close> on \<open>chn\<close>
  (the pointer is the index of the node in the heap of nodes), or a \<open>Response\<close> on
  \<open>chr\<close>.
\<close>

datatype msg = To_chn nat | To_chr Response

text \<open>
  The body of \<open>fetch\<close> up to its send: every failure sends the node on \<open>chn\<close>, success
  sends a \<open>Response\<close> on \<open>chr\<close>.
\<close>

definition fetch_msg :: "nat \<Rightarrow> reply \<Rightarrow> msg" where
  "fetch_msg node r = (case r of
      NewRequest_error \<Rightarrow> To_chn node
    | Do_error \<Rightarrow> To_chn node
    | Do_ok status body elapsed \<Rightarrow>
        if status \<noteq> StatusOK then To_chn node
        else (case body of
            Read_error \<Rightarrow> To_chn node
          | Read_ok b \<Rightarrow> To_chr \<lparr>Message = ''Success'', Body = b, Time = elapsed\<rparr>))"

text \<open>
  Where a goroutine running \<open>fetch\<close> stands: before the HTTP exchange, blocked at its
  send, before \<open>wg.Done()\<close>, inside \<open>wg.Done()\<close> after it has set the counter to zero
  and seen \<open>w\<close> waiters (before it releases them), returned.
\<close>

datatype wpc = W_fetch | W_send msg | W_done | W_release nat | W_exit

record worker =
  wnode :: nat
  wpc :: wpc

text \<open>
  Where the anonymous goroutine of \<open>main\<close> (the aggregator) stands: not started; at the
  \<open>select\<close>; before \<open>parse(&res.Body)\<close>; before \<open>photos[photo.ID] = photo\<close>; before
  \<open>node.Attempts++\<close>; before \<open>if node.Attempts <= 3\<close>; before \<open>fmt.Println\<close>; before
  \<open>wg.Add(1)\<close>; before \<open>go fetch(node, ...)\<close>.
\<close>

datatype apc =
    A_idle
  | A_select
  | A_parse Response
  | A_store Response Photo
  | A_inc nat
  | A_check nat
  | A_println nat
  | A_add nat
  | A_go nat

text \<open>
  Where \<open>main\<close> stands: in the spawning loop with index \<open>i\<close> before \<open>wg.Add(1)\<close> or
  before \<open>go fetch(...)\<close>; before \<open>go func()\<close>; before \<open>wg.Wait()\<close>; inside
  \<open>wg.Wait()\<close>, registered as a waiter and at the semaphore; before \<open>print\<close>; returned
  (the process has exited).
\<close>

datatype mpc = M_add nat | M_go nat | M_start | M_wait | M_blocked | M_print | M_exit

text \<open>
  The state of the process.  The \<open>sync.WaitGroup\<close> is its counter \<open>wg\<close>, its number of
  waiters and its semaphore.  \<open>posted\<close> and \<open>consumed\<close> are history variables, not
  variables of the program: the messages handed over a channel so far, each with the
  index of the worker that sent it, and the messages the aggregator has finished handling
  (it is back at its \<open>select\<close>).
\<close>

record state =
  mpc :: mpc
  wg :: int
  waiters :: nat
  sema :: nat
  nodes :: "Node list"
  workers :: "worker list"
  apc :: apc
  photos :: store
  out :: "line list"
  panicked :: bool
  posted :: "(nat \<times> msg) list"
  consumed :: "msg list"

definition init :: state where
  "init = \<lparr>mpc = M_add 0, wg = 0, waiters = 0, sema = 0, nodes = [], workers = [], apc = A_idle,
     photos = fmempty, out = [], panicked = False, posted = [], consumed = []\<rparr>"

text \<open>The slice \<open>ids\<close> that \<open>main\<close> builds: \<open>ids[i] = i + 1\<close>.\<close>

definition ids :: "env \<Rightarrow> int list" where
  "ids e = map (\<lambda>i. int i + 1) [0..<requests e]"

subsection \<open>\<open>sync.WaitGroup\<close>\<close>

text \<open>
  The wait group of the standard library keeps a counter and a number of waiters in one
  atomic word, and a semaphore.  \<open>Add(delta)\<close> adds \<open>delta\<close> to the counter atomically and
  reads the result \<open>v\<close> and the waiters \<open>w\<close>; it panics when \<open>v < 0\<close> (negative counter),
  and when \<open>w != 0 && delta > 0 && v == delta\<close> (misuse: \<open>Add\<close> called concurrently with
  \<open>Wait\<close>).  That is \<open>wg_Add\<close>, one step.  A panic stops the process; the goroutine that
  panics stays where it is.  The library keeps the counter and the waiters in 32 bits
  each; the model leaves that bound out.
\<close>

definition wg_Add :: "int \<Rightarrow> state \<Rightarrow> state" where
  "wg_Add delta s =
     (let v = wg s + delta in
      if v < 0 then s\<lparr>wg := v, panicked := True\<rparr>
      else if waiters s \<noteq> 0 \<and> 0 < delta \<and> v = delta then s\<lparr>wg := v, panicked := True\<rparr>
      else s\<lparr>wg := v\<rparr>)"

text \<open>
  After these checks the call returns when \<open>v > 0 || w == 0\<close>.  Otherwise the caller has
  set the counter to zero with waiters present, and goes on: it panics when the word has
  changed since (misuse), else it resets the word to zero and releases the semaphore
  once per waiter.  That is \<open>wg_release\<close>, a second step, for the \<open>w\<close> waiters the caller
  has seen.  \<open>Done()\<close> is \<open>Add(-1)\<close>.
\<close>

definition wg_returns :: "state \<Rightarrow> bool" where
  "wg_returns s \<longleftrightarrow> 0 < wg s \<or> waiters s = 0"

definition wg_release :: "nat \<Rightarrow> state \<Rightarrow> state" where
  "wg_release w s =
     (if wg s \<noteq> 0 \<or> waiters s \<noteq> w then s\<lparr>panicked := True\<rparr>
      else s\<lparr>wg := 0, waiters := 0, sema := sema s + w\<rparr>)"

text \<open>
  \<open>Wait()\<close> reads the word; it returns when the counter is zero, else it adds itself to
  the waiters (a compare-and-swap, retried until it succeeds: one step, \<open>wg_Wait\<close>) and
  blocks at the semaphore.  Once released it takes the semaphore and reads the word
  again: it panics when the word is not zero (the wait group is reused before the
  previous \<open>Wait\<close> has returned), else it returns.  That is \<open>wg_wake\<close>, enabled when the
  semaphore is positive.
\<close>

definition wg_Wait :: "state \<Rightarrow> state" where
  "wg_Wait s =
     (if wg s = 0 then s\<lparr>mpc := M_print\<rparr>
      else s\<lparr>waiters := waiters s + 1, mpc := M_blocked\<rparr>)"

definition wg_wake :: "state \<Rightarrow> state option" where
  "wg_wake s =
     (if sema s = 0 then None
      else if wg s \<noteq> 0 \<or> waiters s \<noteq> 0 then Some (s\<lparr>sema := sema s - 1, panicked := True\<rparr>)
      else Some (s\<lparr>sema := sema s - 1, mpc := M_print\<rparr>))"

subsection \<open>\<open>main\<close>\<close>

text \<open>
  The calls \<open>wg.Add(1)\<close> of \<open>main\<close> and of the aggregator return after the two checks
  of \<open>wg_Add\<close>: the counter is not negative before the call (\<open>counter_not_negative\<close>
  below), so it is positive after it.
\<close>

definition main_step :: "env \<Rightarrow> state \<Rightarrow> state option" where
  "main_step e s = (case mpc s of
      M_add i \<Rightarrow>
        if i < requests e
        then (let s1 = wg_Add 1 s in Some (if panicked s1 then s1 else s1\<lparr>mpc := M_go i\<rparr>))
        else Some (s\<lparr>mpc := M_start\<rparr>)
    | M_go i \<Rightarrow>
        Some (s\<lparr>mpc := M_add (i + 1),
                nodes := nodes s @ [\<lparr>ID = ids e ! i, Attempts = 0\<rparr>],
                workers := workers s @ [\<lparr>wnode = length (nodes s), wpc = W_fetch\<rparr>]\<rparr>)
    | M_start \<Rightarrow> Some (s\<lparr>mpc := M_wait, apc := A_select\<rparr>)
    | M_wait \<Rightarrow> Some (wg_Wait s)
    | M_blocked \<Rightarrow> wg_wake s
    | M_print \<Rightarrow> Some (s\<lparr>mpc := M_exit, out := out s @ print (photos s)\<rparr>)
    | M_exit \<Rightarrow> None)"

subsection \<open>\<open>fetch\<close>\<close>

text \<open>
  A send on an unbuffered channel completes together with the receive: the worker's
  send step needs the aggregator at its \<open>select\<close>, and moves both.
\<close>

definition receive :: "msg \<Rightarrow> apc" where
  "receive m = (case m of To_chr res \<Rightarrow> A_parse res | To_chn node \<Rightarrow> A_inc node)"

definition worker_step :: "env \<Rightarrow> nat \<Rightarrow> state \<Rightarrow> state option" where
  "worker_step e i s =
     (if length (workers s) \<le> i then None
      else let w = workers s ! i in
        (case wpc w of
           W_fetch \<Rightarrow>
             let node = nodes s ! wnode w;
                 m = fetch_msg (wnode w) (net e (ID node) (Attempts node))
             in Some (s\<lparr>workers := (workers s)[i := w\<lparr>wpc := W_send m\<rparr>]\<rparr>)
         | W_send m \<Rightarrow>
             if apc s = A_select
             then Some (s\<lparr>workers := (workers s)[i := w\<lparr>wpc := W_done\<rparr>],
                          apc := receive m,
                          posted := posted s @ [(i, m)]\<rparr>)
             else None
         | W_done \<Rightarrow>
             let s1 = wg_Add (- 1) s in
             Some (if panicked s1 then s1
                   else if wg_returns s1
                   then s1\<lparr>workers := (workers s)[i := w\<lparr>wpc := W_exit\<rparr>]\<rparr>
                   else s1\<lparr>workers := (workers s)[i := w\<lparr>wpc := W_release (waiters s1)\<rparr>]\<rparr>)
         | W_release n \<Rightarrow>
             let s1 = wg_release n s in
             Some (if panicked s1 then s1
                   else s1\<lparr>workers := (workers s)[i := w\<lparr>wpc := W_exit\<rparr>]\<rparr>)
         | W_exit \<Rightarrow> None))"

subsection \<open>The aggregator\<close>

definition sending :: "worker \<Rightarrow> bool" where
  "sending w = (case wpc w of W_send m \<Rightarrow> True | _ \<Rightarrow> False)"

text \<open>
  The \<open>default\<close> branch of the \<open>select\<close> is taken when no worker is blocked at a send; it
  changes nothing.
\<close>

definition agg_step :: "env \<Rightarrow> state \<Rightarrow> state option" where
  "agg_step e s = (case apc s of
      A_idle \<Rightarrow> None
    | A_select \<Rightarrow> if list_ex sending (workers s) then None else Some s
    | A_parse res \<Rightarrow>
        (case parse e (Body res) of
           None \<Rightarrow> Some (s\<lparr>apc := A_select, consumed := consumed s @ [To_chr res]\<rparr>)
         | Some photo \<Rightarrow> Some (s\<lparr>apc := A_store res photo\<rparr>))
    | A_store res photo \<Rightarrow>
        Some (s\<lparr>apc := A_select,
                photos := fmupd (Photo_ID photo) photo (photos s),
                consumed := consumed s @ [To_chr res]\<rparr>)
    | A_inc node \<Rightarrow>
        let n = nodes s ! node
        in Some (s\<lparr>apc := A_check node,
                   nodes := (nodes s)[node := n\<lparr>Attempts := Attempts n + 1\<rparr>]\<rparr>)
    | A_check node \<Rightarrow>
        if Attempts (nodes s ! node) \<le> 3 then Some (s\<lparr>apc := A_println node\<rparr>)
        else Some (s\<lparr>apc := A_select, consumed := consumed s @ [To_chn node]\<rparr>)
    | A_println node \<Rightarrow>
        let n = nodes s ! node
        in Some (s\<lparr>apc := A_add node, out := out s @ [Retrying_line (ID n) (Attempts n)]\<rparr>)
    | A_add node \<Rightarrow>
        let s1 = wg_Add 1 s in Some (if panicked s1 then s1 else s1\<lparr>apc := A_go node\<rparr>)
    | A_go node \<Rightarrow>
        Some (s\<lparr>apc := A_select,
                workers := workers s @ [\<lparr>wnode = node, wpc = W_fetch\<rparr>],
                consumed := consumed s @ [To_chn node]\<rparr>))"

subsection \<open>Runs\<close>

text \<open>
  A run is a sequence of steps, each of one goroutine chosen by the scheduler.  Nothing
  moves after \<open>main\<close> has returned or the process has panicked.  The steps are atomic and
  interleaved: the statements between two synchronisations of a goroutine are split at
  the points named by \<open>wpc\<close>, \<open>apc\<close> and \<open>mpc\<close>, and \<open>print\<close> reads the map in one step.
  The reads \<open>ids e ! i\<close> and \<open>nodes s ! a\<close> of the steps are within the lists in every
  state a run reaches (\<open>wf_state\<close> below).
\<close>

datatype action = Main | Agg | Worker nat

definition step :: "env \<Rightarrow> state \<Rightarrow> action \<Rightarrow> state option" where
  "step e s a =
     (if mpc s = M_exit \<or> panicked s then None
      else (case a of Main \<Rightarrow> main_step e s | Agg \<Rightarrow> agg_step e s | Worker i \<Rightarrow> worker_step e i s))"

fun exec :: "env \<Rightarrow> action list \<Rightarrow> state \<Rightarrow> state option" where
  "exec e [] s = Some s"
| "exec e (a # as) s = (case step e s a of None \<Rightarrow> None | Some s' \<Rightarrow> exec e as s')"

section \<open>Example values\<close>

definition p1 :: Photo where
  "p1 = \<lparr>Photo_ID = 1, Title = ''a'', Url = ''u'', Thumbnail = ''t1''\<rparr>"

definition p5 :: Photo where
  "p5 = \<lparr>Photo_ID = 5, Title = ''a'', Url = ''u'', Thumbnail = ''t5''\<rparr>"

text \<open>
  Example bodies: the body the example server sends for photo \<open>n\<close> is the number \<open>n\<close>
  in base 256, least significant byte first (every element is a byte), and the example
  of \<open>json.Unmarshal\<close> reads a non-empty body back as the photo with that \<open>ID\<close>; the
  empty body is malformed.
\<close>

function photo_body :: "nat \<Rightarrow> bytes" where
  "photo_body n = (if n < 256 then [n] else n mod 256 # photo_body (n div 256))"
  by pat_completeness auto
termination
  by (relation "measure (\<lambda>n. n)") (simp_all add: div_less_dividend)

declare photo_body.simps [simp del]

fun body_value :: "bytes \<Rightarrow> nat" where
  "body_value [] = 0"
| "body_value (b # bs) = b + 256 * body_value bs"

definition photo_of_bytes :: "bytes \<Rightarrow> Photo option" where
  "photo_of_bytes b = (case b of
      [] \<Rightarrow> None
    | _ \<Rightarrow> Some \<lparr>Photo_ID = int (body_value b), Title = [], Url = [], Thumbnail = []\<rparr>)"

text \<open>A server that answers the request for photo \<open>id\<close> with the body \<open>body id\<close>.\<close>

definition serve :: "(int \<Rightarrow> bytes) \<Rightarrow> int \<Rightarrow> int \<Rightarrow> reply" where
  "serve body ident k = Do_ok StatusOK (Read_ok (body ident)) 5"

text \<open>Example runs: one identifier whose requests all fail at the transport.\<close>

definition env_fail :: env where
  "env_fail = \<lparr>requests = 1, net = (\<lambda>ident k. Do_error), Unmarshal = photo_of_bytes\<rparr>"

text \<open>One identifier, the server always answers with a malformed (empty) body.\<close>

definition env_malformed :: env where
  "env_malformed = \<lparr>requests = 1, net = serve (\<lambda>ident. []), Unmarshal = photo_of_bytes\<rparr>"

text \<open>\<open>n\<close> identifiers, the server always answers with the photo asked for.\<close>

definition env_echo :: "nat \<Rightarrow> env" where
  "env_echo n = \<lparr>requests = n, net = serve (\<lambda>ident. photo_body (nat ident)), Unmarshal = photo_of_bytes\<rparr>"

text \<open>
  Five identifiers; the requests for 2 and 4 always fail, those for 1, 3 and 5 are
  answered with the photo asked for.
\<close>

definition env_five :: env where
  "env_five = \<lparr>requests = 5,
     net = (\<lambda>ident k. if ident = 2 \<or> ident = 4 then Do_error else serve (\<lambda>i. photo_body (nat i)) ident k),
     Unmarshal = photo_of_bytes\<rparr>"

text \<open>\<open>n\<close> identifiers, the server answers every request with photo \<open>c\<close>.\<close>

definition env_const :: "nat \<Rightarrow> nat \<Rightarrow> env" where
  "env_const n c = \<lparr>requests = n, net = serve (\<lambda>ident. photo_body c), Unmarshal = photo_of_bytes\<rparr>"

text \<open>
  Pieces of schedules.  \<open>seed n\<close>: \<open>main\<close> runs its loop \<open>n\<close> times, starts the aggregator
  and calls \<open>wg.Wait()\<close>.  \<open>handled i\<close>: worker \<open>i\<close> fetches and sends, the aggregator
  handles the message in two steps (parse and store, or increment and drop), then the
  worker calls \<open>wg.Done()\<close>.  \<open>retried i\<close>: worker \<open>i\<close> fetches and sends a failure, the
  aggregator handles it in five steps up to \<open>go fetch\<close>, then the worker calls
  \<open>wg.Done()\<close>.  \<open>hasty i\<close>: worker \<open>i\<close> fetches, sends and calls \<open>wg.Done()\<close> before the
  aggregator takes another step.  \<open>released i\<close>: worker \<open>i\<close>, whose \<open>wg.Done()\<close> has set the
  counter to zero, releases \<open>main\<close> and returns, and \<open>main\<close> wakes up in \<open>wg.Wait()\<close> and
  returns from it.
\<close>

definition seed :: "nat \<Rightarrow> action list" where
  "seed n = replicate (2 * n + 3) Main"

definition handled :: "nat \<Rightarrow> action list" where
  "handled i = [Worker i, Worker i, Agg, Agg, Worker i]"

definition retried :: "nat \<Rightarrow> action list" where
  "retried i = [Worker i, Worker i, Agg, Agg, Agg, Agg, Agg, Worker i]"

definition hasty :: "nat \<Rightarrow> action list" where
  "hasty i = [Worker i, Worker i, Worker i]"

definition released :: "nat \<Rightarrow> action list" where
  "released i = [Worker i, Main]"

text \<open>What a test observes of a state.\<close>

definition keys :: "state \<Rightarrow> int list" where
  "keys s = sorted_list_of_fset (fmdom (photos s))"

text \<open>
  \<open>n\<close> identifiers; every request for the last one, \<open>n\<close>, fails, the others are answered
  with the photo asked for.
\<close>

definition env_last :: "nat \<Rightarrow> env" where
  "env_last n = \<lparr>requests = n,
     net = (\<lambda>ident k. if ident = int n then Do_error else serve (\<lambda>i. photo_body (nat i)) ident k),
     Unmarshal = photo_of_bytes\<rparr>"

text \<open>
  \<open>n\<close> identifiers; the request for the last one, \<open>n\<close>, is answered with photo \<open>n + 1\<close>,
  the others with the photo asked for.
\<close>

definition env_next :: "nat \<Rightarrow> env" where
  "env_next n = \<lparr>requests = n,
     net = serve (\<lambda>i. if i = int n then photo_body (Suc n) else photo_body (nat i)),
     Unmarshal = photo_of_bytes\<rparr>"

text \<open>
  The state after \<open>main\<close> has run its loop \<open>k\<close> times, and the state in which \<open>main\<close> is
  the one waiter, blocked in \<open>wg.Wait()\<close>, with \<open>n\<close> workers of which the first \<open>j\<close> have
  been handled and have returned, their photos \<open>1 .. j\<close> stored, and the others have not
  started.
\<close>

definition spawned :: "nat \<Rightarrow> state \<Rightarrow> bool" where
  "spawned k s \<longleftrightarrow>
     mpc s = M_add k \<and> wg s = int k \<and> waiters s = 0 \<and> sema s = 0 \<and>
     apc s = A_idle \<and> \<not> panicked s \<and>
     photos s = fmempty \<and> consumed s = [] \<and>
     nodes s = map (\<lambda>i. \<lparr>ID = int i + 1, Attempts = 0\<rparr>) [0..<k] \<and>
     workers s = map (\<lambda>i. \<lparr>wnode = i, wpc = W_fetch\<rparr>) [0..<k]"

definition ready :: "nat \<Rightarrow> nat \<Rightarrow> state \<Rightarrow> bool" where
  "ready n j s \<longleftrightarrow>
     mpc s = M_blocked \<and> wg s = int n - int j \<and> waiters s = 1 \<and> sema s = 0 \<and>
     apc s = A_select \<and> \<not> panicked s \<and>
     (\<forall>k. fmlookup (photos s) k \<noteq> None \<longrightarrow> k \<le> int j) \<and> length (consumed s) = j \<and>
     nodes s = map (\<lambda>i. \<lparr>ID = int i + 1, Attempts = 0\<rparr>) [0..<n] \<and>
     workers s = map (\<lambda>i. \<lparr>wnode = i, wpc = (if i < j then W_exit else W_fetch)\<rparr>) [0..<n]"

text \<open>The workers \<open>0 .. m - 1\<close> are handled one after the other.\<close>

definition handled_upto :: "nat \<Rightarrow> action list" where
  "handled_upto m = concat (map handled [0..<m])"

text \<open>
  \<open>n\<close> identifiers; every request for the last one, \<open>n\<close>, fails, the request for \<open>n - 1\<close>
  is answered with photo \<open>n\<close>, the others with the photo asked for.
\<close>

definition env_stray :: "nat \<Rightarrow> env" where
  "env_stray n = \<lparr>requests = n,
     net = (\<lambda>ident k. if ident = int n then Do_error
        else serve (\<lambda>i. if i = int n - 1 then photo_body n else photo_body (nat i)) ident k),
     Unmarshal = photo_of_bytes\<rparr>"

text \<open>
  \<open>n\<close> identifiers; the request for the last one, \<open>n\<close>, is answered with photo \<open>n - 1\<close>,
  the others with the photo asked for.
\<close>

definition env_twin :: "nat \<Rightarrow> env" where
  "env_twin n = \<lparr>requests = n,
     net = serve (\<lambda>i. if i = int n then photo_body (n - 1) else photo_body (nat i)),
     Unmarshal = photo_of_bytes\<rparr>"

section \<open>Notions used in the statements\<close>

text \<open>The node whose failure the aggregator is handling, if it is handling one.\<close>

fun handling :: "apc \<Rightarrow> nat option" where
  "handling (A_inc node) = Some node"
| "handling (A_check node) = Some node"
| "handling (A_println node) = Some node"
| "handling (A_add node) = Some node"
| "handling (A_go node) = Some node"
| "handling A_idle = None"
| "handling A_select = None"
| "handling (A_parse res) = None"
| "handling (A_store res photo) = None"

text \<open>A worker that has not handed its message over yet.\<close>

definition pending :: "worker \<Rightarrow> bool" where
  "pending w = (case wpc w of W_fetch \<Rightarrow> True | W_send m \<Rightarrow> True | _ \<Rightarrow> False)"

text \<open>The workers spawned so far for a node, and those of them still pending.\<close>

definition attempts_of :: "nat \<Rightarrow> state \<Rightarrow> nat" where
  "attempts_of node s = length (filter (\<lambda>w. wnode w = node) (workers s))"

definition pending_of :: "nat \<Rightarrow> state \<Rightarrow> nat" where
  "pending_of node s = length (filter (\<lambda>w. wnode w = node \<and> pending w) (workers s))"

text \<open>The messages a worker has handed over so far.\<close>

definition posts_by :: "nat \<Rightarrow> state \<Rightarrow> msg list" where
  "posts_by i s = map snd (filter (\<lambda>p. fst p = i) (posted s))"

text \<open>
  The map that results from handling a sequence of messages in order, as the aggregator
  does: a response whose body parses is stored under the \<open>ID\<close> of the parsed photo.
\<close>

definition store_msg :: "env \<Rightarrow> msg \<Rightarrow> store \<Rightarrow> store" where
  "store_msg e m st = (case m of
      To_chn node \<Rightarrow> st
    | To_chr res \<Rightarrow> (case parse e (Body res) of
          None \<Rightarrow> st
        | Some photo \<Rightarrow> fmupd (Photo_ID photo) photo st))"

definition store_of :: "env \<Rightarrow> msg list \<Rightarrow> store" where
  "store_of e ms = fold (store_msg e) ms fmempty"

text \<open>A reply of the network that makes \<open>fetch\<close> report a failure.\<close>

definition failure :: "reply \<Rightarrow> bool" where
  "failure r = (case fetch_msg 0 r of To_chn node \<Rightarrow> True | To_chr res \<Rightarrow> False)"

subsection \<open>Invariants of the runs\<close>

text \<open>The number of iterations of the spawning loop that \<open>main\<close> has finished.\<close>

definition iterations :: "env \<Rightarrow> mpc \<Rightarrow> nat" where
  "iterations e pc = (case pc of M_add i \<Rightarrow> i | M_go i \<Rightarrow> i | _ \<Rightarrow> requests e)"

text \<open>
  Pointers are valid, a failure message carries the sender's own node, node \<open>a\<close> holds
  identifier \<open>a + 1\<close>, and \<open>main\<close> has allocated one node per finished loop iteration.
\<close>

definition wf_state :: "env \<Rightarrow> state \<Rightarrow> bool" where
  "wf_state e s \<longleftrightarrow>
     (\<forall>w\<in>set (workers s). wnode w < length (nodes s) \<and>
        (\<forall>a. wpc w = W_send (To_chn a) \<longrightarrow> a = wnode w)) \<and>
     (\<forall>a. handling (apc s) = Some a \<longrightarrow> a < length (nodes s)) \<and>
     (\<forall>a<length (nodes s). ID (nodes s ! a) = int a + 1) \<and>
     iterations e (mpc s) = length (nodes s) \<and>
     length (nodes s) \<le> requests e \<and>
     (\<forall>i. mpc s = M_go i \<longrightarrow> i < requests e)"

text \<open>
  The accounting of one node: at most one of its workers is pending or being handled
  by the aggregator; \<open>Attempts\<close> counts the failures handled; the workers spawned for it
  are one more than \<open>Attempts\<close> until the increment, and never more than four.
\<close>

definition attempt_inv :: "state \<Rightarrow> nat \<Rightarrow> bool" where
  "attempt_inv s a \<longleftrightarrow>
     pending_of a s + (if handling (apc s) = Some a then 1 else 0) \<le> 1 \<and>
     0 \<le> Attempts (nodes s ! a) \<and> Attempts (nodes s ! a) \<le> 4 \<and>
     attempts_of a s \<le> 4 \<and>
     (0 < pending_of a s \<or> apc s = A_inc a \<longrightarrow>
        int (attempts_of a s) = Attempts (nodes s ! a) + 1 \<and> Attempts (nodes s ! a) \<le> 3) \<and>
     (apc s = A_check a \<longrightarrow> int (attempts_of a s) = Attempts (nodes s ! a)) \<and>
     (apc s = A_println a \<or> apc s = A_add a \<or> apc s = A_go a \<longrightarrow>
        int (attempts_of a s) = Attempts (nodes s ! a) \<and> Attempts (nodes s ! a) \<le> 3)"

definition inv :: "env \<Rightarrow> state \<Rightarrow> bool" where
  "inv e s \<longleftrightarrow> wf_state e s \<and> (\<forall>a<length (nodes s). attempt_inv s a)"

text \<open>
  A response that \<open>fetch\<close> builds from the network's answer to one of the four requests
  a node can get.
\<close>

definition asked :: "env \<Rightarrow> Response \<Rightarrow> bool" where
  "asked e res \<longleftrightarrow>
     (\<exists>a k. a < requests e \<and> 0 \<le> k \<and> k \<le> 3 \<and>
        fetch_msg a (net e (int a + 1) k) = To_chr res)"

text \<open>Every response in the system was built by \<open>fetch\<close> from such an answer.\<close>

definition genuine :: "env \<Rightarrow> state \<Rightarrow> bool" where
  "genuine e s \<longleftrightarrow>
     (\<forall>w\<in>set (workers s). \<forall>res. wpc w = W_send (To_chr res) \<longrightarrow> asked e res) \<and>
     (\<forall>res. apc s = A_parse res \<longrightarrow> asked e res) \<and>
     (\<forall>res photo. apc s = A_store res photo \<longrightarrow> asked e res) \<and>
     (\<forall>res. To_chr res \<in> set (consumed s) \<longrightarrow> asked e res)"

text \<open>
  The map holds what handling the consumed messages in order puts there, and the photo
  about to be stored is the parsed body of the response received.
\<close>

definition store_inv :: "env \<Rightarrow> state \<Rightarrow> bool" where
  "store_inv e s \<longleftrightarrow>
     photos s = store_of e (consumed s) \<and>
     (\<forall>res photo. apc s = A_store res photo \<longrightarrow> parse e (Body res) = Some photo)"

text \<open>The message the aggregator has received and not finished handling.\<close>

fun in_hand :: "apc \<Rightarrow> msg list" where
  "in_hand (A_parse res) = [To_chr res]"
| "in_hand (A_store res photo) = [To_chr res]"
| "in_hand (A_inc node) = [To_chn node]"
| "in_hand (A_check node) = [To_chn node]"
| "in_hand (A_println node) = [To_chn node]"
| "in_hand (A_add node) = [To_chn node]"
| "in_hand (A_go node) = [To_chn node]"
| "in_hand A_idle = []"
| "in_hand A_select = []"

text \<open>
  Every message handed over comes from a worker of the list; a worker has handed over no
  message while it is pending and one message afterwards; the messages handed over are
  those consumed, in order, followed by the one in the aggregator's hand.
\<close>

definition posts_inv :: "state \<Rightarrow> bool" where
  "posts_inv s \<longleftrightarrow>
     (\<forall>p\<in>set (posted s). fst p < length (workers s)) \<and>
     (\<forall>i<length (workers s).
        length (posts_by i s) = (if pending (workers s ! i) then 0 else 1)) \<and>
     map snd (posted s) = consumed s @ in_hand (apc s)"

text \<open>\<open>main\<close> has not started the aggregator yet.\<close>

definition spawning :: "mpc \<Rightarrow> bool" where
  "spawning pc = (case pc of M_add i \<Rightarrow> True | M_go i \<Rightarrow> True | M_start \<Rightarrow> True | _ \<Rightarrow> False)"

text \<open>
  The counter of the wait group is not negative unless the process has panicked, and the
  aggregator does not move before \<open>main\<close> has started it.
\<close>

definition wg_inv :: "state \<Rightarrow> bool" where
  "wg_inv s \<longleftrightarrow> (\<not> panicked s \<longrightarrow> 0 \<le> wg s) \<and> (spawning (mpc s) \<longrightarrow> apc s = A_idle)"

text \<open>
  A message that \<open>fetch\<close>, run for the node of worker \<open>i\<close>, builds from the network's
  answer to one of the four requests for that node's identifier.
\<close>

definition sent_by :: "env \<Rightarrow> state \<Rightarrow> nat \<Rightarrow> msg \<Rightarrow> bool" where
  "sent_by e s i m \<longleftrightarrow>
     (\<exists>k. 0 \<le> k \<and> k \<le> 3 \<and>
        m = fetch_msg (wnode (workers s ! i)) (net e (int (wnode (workers s ! i)) + 1) k))"

definition posts_own :: "env \<Rightarrow> state \<Rightarrow> bool" where
  "posts_own e s \<longleftrightarrow>
     (\<forall>i<length (workers s). \<forall>m. wpc (workers s ! i) = W_send m \<longrightarrow> sent_by e s i m) \<and>
     (\<forall>p\<in>set (posted s). fst p < length (workers s) \<and> sent_by e s (fst p) (snd p))"

text \<open>
  No failure has been reported: every worker was spawned by \<open>main\<close>, and the aggregator
  is not handling a node.
\<close>

definition no_retry :: "state \<Rightarrow> bool" where
  "no_retry s \<longleftrightarrow>
     length (workers s) = length (nodes s) \<and> handling (apc s) = None \<and>
     (\<forall>w\<in>set (workers s). \<forall>a. wpc w \<noteq> W_send (To_chn a))"

section \<open>Properties of the reporting stage\<close>

lemma len_fmempty: "len fmempty = 0"
  by (simp add: len_def fcard_fempty)

lemma len_fmupd: "len (fmupd k v m) = (if k |\<in>| fmdom m then len m else Suc (len m))"
  by (simp add: len_def fcard_finsert_if)

lemma print_loop_keys:
  "print_loop m i =
     List.map_filter (\<lambda>k. map_option photo_line (fmlookup m k))
       (map (\<lambda>j. int j + 1) [i..<len m])"
proof (induction m i rule: print_loop.induct)
  case (1 m i)
  show ?case
  proof (cases "i < len m")
    case False
    then show ?thesis by (simp add: print_loop.simps map_filter_simps)
  next
    case True
    then have up: "[i..<len m] = i # [i + 1..<len m]"
      by (simp add: upt_conv_Cons)
    show ?thesis
    proof (cases "fmlookup m (int i + 1)")
      case None
      with True "1.IH"(1) up show ?thesis
        by (subst print_loop.simps) (simp add: map_filter_simps)
    next
      case (Some photo)
      with True "1.IH"(2) up show ?thesis
        by (subst print_loop.simps) (simp add: map_filter_simps)
    qed
  qed
qed

lemma set_map_filter: "set (List.map_filter g xs) = {y. \<exists>x\<in>set xs. g x = Some y}"
  by (induction xs) (auto split: option.splits)

lemma print_loop_lines:
  "set (print_loop m 0) =
     {photo_line photo | photo k. fmlookup m k = Some photo \<and> 1 \<le> k \<and> k \<le> int (len m)}"
  (is "?L = ?R")
proof (intro set_eqI iffI)
  fix l assume "l \<in> ?L"
  then obtain j photo where "j < len m" "fmlookup m (int j + 1) = Some photo" "l = photo_line photo"
    by (auto simp: print_loop_keys set_map_filter)
  then have "fmlookup m (int j + 1) = Some photo \<and> 1 \<le> int j + 1 \<and> int j + 1 \<le> int (len m)"
    by simp
  with \<open>l = photo_line photo\<close> show "l \<in> ?R" by blast
next
  fix l assume "l \<in> ?R"
  then obtain photo k where k: "fmlookup m k = Some photo" "1 \<le> k" "k \<le> int (len m)"
    and l: "l = photo_line photo"
    by blast
  from k have "nat (k - 1) < len m" "int (nat (k - 1)) + 1 = k" by auto
  with k(1) l have "\<exists>j\<in>{0..<len m}. map_option photo_line (fmlookup m (int j + 1)) = Some l"
    by (intro bexI [of _ "nat (k - 1)"]) auto
  then show "l \<in> ?L"
    by (auto simp: print_loop_keys set_map_filter)
qed

text \<open>
  C10: \<open>print\<close> looks up the keys \<open>1 .. len(photos)\<close> in increasing order and writes
  one line for each key it finds, then the total \<open>len(photos)\<close>.  An entry whose key is
  greater than the number of entries is in the map and has no line in the listing (the
  aggregator stores every photo under the photo's own \<open>ID\<close>, so a line is recognised by
  the \<open>ID\<close> it shows); the total written is the size of the map.
\<close>

theorem print_lists_keys_up_to_len:
  "print m =
     Photos_header #
     List.map_filter (\<lambda>k. map_option photo_line (fmlookup m k))
       (map (\<lambda>i. int i + 1) [0..<len m]) @
     [Total_line (len m), Elapsed_line]
   \<and> (\<forall>k photo. fmlookup m k = Some photo \<and> int (len m) < k \<and>
         (\<forall>k' photo'. fmlookup m k' = Some photo' \<longrightarrow> Photo_ID photo' = k') \<longrightarrow>
         (\<forall>t. Photo_line k t \<notin> set (print m)))
   \<and> (\<forall>n. Total_line n \<in> set (print m) \<longleftrightarrow> n = len m)"
proof (intro conjI allI impI)
  show "print m =
     Photos_header #
     List.map_filter (\<lambda>k. map_option photo_line (fmlookup m k))
       (map (\<lambda>i. int i + 1) [0..<len m]) @
     [Total_line (len m), Elapsed_line]"
    by (simp add: print_def print_loop_keys)
next
  fix n show "Total_line n \<in> set (print m) \<longleftrightarrow> n = len m"
    by (auto simp: print_def print_loop_lines photo_line_def)
next
  fix k photo t
  assume a: "fmlookup m k = Some photo \<and> int (len m) < k \<and>
         (\<forall>k' photo'. fmlookup m k' = Some photo' \<longrightarrow> Photo_ID photo' = k')"
  show "Photo_line k t \<notin> set (print m)"
  proof
    assume "Photo_line k t \<in> set (print m)"
    then obtain photo' k' where "fmlookup m k' = Some photo'" "1 \<le> k'" "k' \<le> int (len m)"
       "Photo_line k t = photo_line photo'"
      by (auto simp: print_def print_loop_lines)
    with a show False by (auto simp: photo_line_def)
  qed
qed

theorem print_lists_keys_up_to_len_witness:
  "print (fmupd 5 p5 (fmupd 1 p1 fmempty)) = [Photos_header, Photo_line 1 ''t1'', Total_line 2, Elapsed_line]
   \<and> fmlookup (fmupd 5 p5 (fmupd 1 p1 fmempty)) (5::int) = Some p5
   \<and> (\<forall>t. Photo_line 5 t \<notin> set (print (fmupd 5 p5 (fmupd 1 p1 fmempty))))"
proof -
  let ?M = "fmupd 5 p5 (fmupd 1 p1 fmempty)"
  have l: "len ?M = 2" by (simp add: len_fmupd len_fmempty)
  have "[0..<2] = [0, 1]" by (simp add: upt_rec)
  with l have "print ?M = [Photos_header, Photo_line 1 ''t1'', Total_line 2, Elapsed_line]"
    using print_lists_keys_up_to_len [of ?M]
    by (simp add: map_filter_simps photo_line_def p1_def)
  moreover have "\<forall>t. Photo_line 5 t \<notin> set (print ?M)"
    using print_lists_keys_up_to_len [of ?M, THEN conjunct2, THEN conjunct1, rule_format, of 5 p5] l
    by (simp add: p1_def p5_def)
  ultimately show ?thesis by simp
qed

section \<open>Steps and the invariants they keep\<close>

lemma wg_Add_sel [simp]:
  "mpc (wg_Add d s) = mpc s"
  "nodes (wg_Add d s) = nodes s"
  "workers (wg_Add d s) = workers s"
  "apc (wg_Add d s) = apc s"
  "photos (wg_Add d s) = photos s"
  "out (wg_Add d s) = out s"
  "posted (wg_Add d s) = posted s"
  "consumed (wg_Add d s) = consumed s"
  "waiters (wg_Add d s) = waiters s"
  "sema (wg_Add d s) = sema s"
  "wg (wg_Add d s) = wg s + d"
  "panicked (wg_Add d s) = (panicked s \<or> wg s + d < 0 \<or> (waiters s \<noteq> 0 \<and> 0 < d \<and> wg s = 0))"
  by (auto simp: wg_Add_def Let_def)

lemma wg_release_sel [simp]:
  "mpc (wg_release n s) = mpc s"
  "nodes (wg_release n s) = nodes s"
  "workers (wg_release n s) = workers s"
  "apc (wg_release n s) = apc s"
  "photos (wg_release n s) = photos s"
  "out (wg_release n s) = out s"
  "posted (wg_release n s) = posted s"
  "consumed (wg_release n s) = consumed s"
  "panicked (wg_release n s) = (panicked s \<or> wg s \<noteq> 0 \<or> waiters s \<noteq> n)"
  by (auto simp: wg_release_def)

lemma wg_Wait_sel [simp]:
  "nodes (wg_Wait s) = nodes s"
  "workers (wg_Wait s) = workers s"
  "apc (wg_Wait s) = apc s"
  "photos (wg_Wait s) = photos s"
  "out (wg_Wait s) = out s"
  "posted (wg_Wait s) = posted s"
  "consumed (wg_Wait s) = consumed s"
  "panicked (wg_Wait s) = panicked s"
  "wg (wg_Wait s) = wg s"
  "mpc (wg_Wait s) = (if wg s = 0 then M_print else M_blocked)"
  by (auto simp: wg_Wait_def)

text \<open>
  The steps, case by case.  In the case \<open>panic\<close> a call of the wait group has panicked:
  nothing but the wait group and the flag has changed.
\<close>

lemma stepE [consumes 1, case_names add loop_end go start wait wake print fetch send done'
    release default parse_err parse_ok store inc check_retry check_drop println agg_add agg_go
    panic]:
  assumes "step e s a = Some s'"
  obtains
    (add) i where "mpc s = M_add i" "i < requests e" "s' = (wg_Add 1 s)\<lparr>mpc := M_go i\<rparr>"
      "\<not> panicked s'"
  | (loop_end) i where "mpc s = M_add i" "\<not> i < requests e" "s' = s\<lparr>mpc := M_start\<rparr>"
  | (go) i where "mpc s = M_go i"
      "s' = s\<lparr>mpc := M_add (i + 1),
              nodes := nodes s @ [\<lparr>ID = ids e ! i, Attempts = 0\<rparr>],
              workers := workers s @ [\<lparr>wnode = length (nodes s), wpc = W_fetch\<rparr>]\<rparr>"
  | (start) "mpc s = M_start" "s' = s\<lparr>mpc := M_wait, apc := A_select\<rparr>"
  | (wait) "mpc s = M_wait" "s' = wg_Wait s"
  | (wake) "mpc s = M_blocked" "0 < sema s" "wg s = 0" "waiters s = 0"
      "s' = s\<lparr>sema := sema s - 1, mpc := M_print\<rparr>"
  | (print) "mpc s = M_print" "s' = s\<lparr>mpc := M_exit, out := out s @ print (photos s)\<rparr>"
  | (fetch) i where "i < length (workers s)" "wpc (workers s ! i) = W_fetch"
      "s' = s\<lparr>workers := (workers s)[i := (workers s ! i)\<lparr>wpc := W_send
          (fetch_msg (wnode (workers s ! i))
             (net e (ID (nodes s ! wnode (workers s ! i)))
                (Attempts (nodes s ! wnode (workers s ! i)))))\<rparr>]\<rparr>"
  | (send) i m where "i < length (workers s)" "wpc (workers s ! i) = W_send m" "apc s = A_select"
      "s' = s\<lparr>workers := (workers s)[i := (workers s ! i)\<lparr>wpc := W_done\<rparr>],
              apc := receive m, posted := posted s @ [(i, m)]\<rparr>"
  | (done') i pc where "i < length (workers s)" "wpc (workers s ! i) = W_done"
      "s' = (wg_Add (- 1) s)\<lparr>workers := (workers s)[i := (workers s ! i)\<lparr>wpc := pc\<rparr>]\<rparr>"
      "pc = W_exit \<or> pc = W_release (waiters s)" "\<not> panicked s'"
      "pc = (if wg_returns (wg_Add (- 1) s) then W_exit else W_release (waiters s))"
  | (release) i n where "i < length (workers s)" "wpc (workers s ! i) = W_release n"
      "s' = (wg_release n s)\<lparr>workers := (workers s)[i := (workers s ! i)\<lparr>wpc := W_exit\<rparr>]\<rparr>"
      "\<not> panicked s'"
  | (default) "apc s = A_select" "\<not> list_ex sending (workers s)" "s' = s"
  | (parse_err) res where "apc s = A_parse res" "parse e (Body res) = None"
      "s' = s\<lparr>apc := A_select, consumed := consumed s @ [To_chr res]\<rparr>"
  | (parse_ok) res photo where "apc s = A_parse res" "parse e (Body res) = Some photo"
      "s' = s\<lparr>apc := A_store res photo\<rparr>"
  | (store) res photo where "apc s = A_store res photo"
      "s' = s\<lparr>apc := A_select, photos := fmupd (Photo_ID photo) photo (photos s),
              consumed := consumed s @ [To_chr res]\<rparr>"
  | (inc) node where "apc s = A_inc node"
      "s' = s\<lparr>apc := A_check node,
              nodes := (nodes s)[node := (nodes s ! node)\<lparr>Attempts := Attempts (nodes s ! node) + 1\<rparr>]\<rparr>"
  | (check_retry) node where "apc s = A_check node" "Attempts (nodes s ! node) \<le> 3"
      "s' = s\<lparr>apc := A_println node\<rparr>"
  | (check_drop) node where "apc s = A_check node" "\<not> Attempts (nodes s ! node) \<le> 3"
      "s' = s\<lparr>apc := A_select, consumed := consumed s @ [To_chn node]\<rparr>"
  | (println) node where "apc s = A_println node"
      "s' = s\<lparr>apc := A_add node,
              out := out s @ [Retrying_line (ID (nodes s ! node)) (Attempts (nodes s ! node))]\<rparr>"
  | (agg_add) node where "apc s = A_add node" "s' = (wg_Add 1 s)\<lparr>apc := A_go node\<rparr>"
      "\<not> panicked s'"
  | (agg_go) node where "apc s = A_go node"
      "s' = s\<lparr>apc := A_select, workers := workers s @ [\<lparr>wnode = node, wpc = W_fetch\<rparr>],
              consumed := consumed s @ [To_chn node]\<rparr>"
  | (panic) "panicked s'" "mpc s' = mpc s" "nodes s' = nodes s" "workers s' = workers s"
      "apc s' = apc s" "photos s' = photos s" "out s' = out s" "posted s' = posted s"
      "consumed s' = consumed s"
proof -
  from assms have np: "\<not> panicked s" by (auto simp: step_def split: if_splits)
  show ?thesis
  proof (cases a)
    case Main
    show ?thesis
    proof (cases "mpc s")
      case (M_add i)
      show ?thesis
      proof (cases "i < requests e")
        case True
        show ?thesis
        proof (cases "panicked (wg_Add 1 s)")
          case True
          with \<open>i < requests e\<close> M_add Main assms have "s' = wg_Add 1 s"
            by (simp add: step_def main_step_def Let_def split: if_splits)
          with True show ?thesis by (intro panic) simp_all
        next
          case False
          with \<open>i < requests e\<close> M_add Main assms have "s' = (wg_Add 1 s)\<lparr>mpc := M_go i\<rparr>"
            by (simp add: step_def main_step_def Let_def split: if_splits)
          with False M_add \<open>i < requests e\<close> show ?thesis by (intro add [of i]) simp_all
        qed
      next
        case False
        with M_add Main assms show ?thesis
          by (intro loop_end [of i]) (simp_all add: step_def main_step_def split: if_splits)
      qed
    next
      case (M_go i)
      with Main assms show ?thesis
        by (intro go [of i]) (auto simp: step_def main_step_def split: if_splits)
    next
      case M_start
      with Main assms show ?thesis
        by (intro start) (auto simp: step_def main_step_def split: if_splits)
    next
      case M_wait
      with Main assms show ?thesis
        by (intro wait) (auto simp: step_def main_step_def split: if_splits)
    next
      case M_blocked
      with Main assms have w: "wg_wake s = Some s'"
        by (simp add: step_def main_step_def split: if_splits)
      show ?thesis
      proof (cases "wg s \<noteq> 0 \<or> waiters s \<noteq> 0")
        case True
        with w have "s' = s\<lparr>sema := sema s - 1, panicked := True\<rparr>"
          by (auto simp: wg_wake_def split: if_splits)
        then show ?thesis by (intro panic) simp_all
      next
        case False
        with w M_blocked show ?thesis
          by (intro wake) (auto simp: wg_wake_def split: if_splits)
      qed
    next
      case M_print
      with Main assms show ?thesis
        by (intro print) (auto simp: step_def main_step_def split: if_splits)
    next
      case M_exit
      with Main assms show ?thesis by (simp add: step_def)
    qed
  next
    case Agg
    show ?thesis
    proof (cases "\<exists>node. apc s = A_add node")
      case True
      then obtain node where n: "apc s = A_add node" by blast
      show ?thesis
      proof (cases "panicked (wg_Add 1 s)")
        case True
        with n Agg assms have "s' = wg_Add 1 s"
          by (simp add: step_def agg_step_def Let_def split: if_splits)
        with True show ?thesis by (intro panic) simp_all
      next
        case False
        with n Agg assms have "s' = (wg_Add 1 s)\<lparr>apc := A_go node\<rparr>"
          by (simp add: step_def agg_step_def Let_def split: if_splits)
        with False n show ?thesis by (intro agg_add [of node]) simp_all
      qed
    next
      case False
      with Agg assms show ?thesis
        by (cases "apc s")
          (auto simp: step_def agg_step_def Let_def split: if_splits option.splits
            intro: default parse_err parse_ok store inc check_retry check_drop println agg_go)
    qed
  next
    case (Worker i)
    with assms have i: "i < length (workers s)"
      by (auto simp: step_def worker_step_def not_le split: if_splits)
    show ?thesis
    proof (cases "wpc (workers s ! i)")
      case W_fetch
      with Worker assms i show ?thesis
        by (intro fetch [of i]) (auto simp: step_def worker_step_def Let_def split: if_splits)
    next
      case (W_send m)
      with Worker assms i show ?thesis
        by (intro send [of i m]) (auto simp: step_def worker_step_def Let_def split: if_splits)
    next
      case W_done
      show ?thesis
      proof (cases "panicked (wg_Add (- 1) s)")
        case True
        with W_done Worker assms i have "s' = wg_Add (- 1) s"
          by (simp add: step_def worker_step_def Let_def split: if_splits)
        with True show ?thesis by (intro panic) simp_all
      next
        case False
        let ?pc = "if wg_returns (wg_Add (- 1) s) then W_exit else W_release (waiters s)"
        from False W_done Worker assms i
        have "s' = (wg_Add (- 1) s)\<lparr>workers := (workers s)[i := (workers s ! i)\<lparr>wpc := ?pc\<rparr>]\<rparr>"
          by (auto simp: step_def worker_step_def Let_def split: if_splits)
        with False W_done i show ?thesis by (intro done' [of i ?pc]) simp_all
      qed
    next
      case (W_release n)
      show ?thesis
      proof (cases "panicked (wg_release n s)")
        case True
        with W_release Worker assms i have "s' = wg_release n s"
          by (simp add: step_def worker_step_def Let_def split: if_splits)
        with True show ?thesis by (intro panic) simp_all
      next
        case False
        with W_release Worker assms i
        have "s' = (wg_release n s)\<lparr>workers := (workers s)[i := (workers s ! i)\<lparr>wpc := W_exit\<rparr>]\<rparr>"
          by (simp add: step_def worker_step_def Let_def split: if_splits)
        with False W_release i show ?thesis by (intro release [of i n]) simp_all
      qed
    next
      case W_exit
      with Worker assms i show ?thesis
        by (simp add: step_def worker_step_def Let_def split: if_splits)
    qed
  qed
qed


lemma length_filter_update:
  "i < length xs \<Longrightarrow>
     length (filter P (xs[i := x])) + (if P (xs ! i) then 1 else 0) =
     length (filter P xs) + (if P x then 1 else 0)"
proof (induction xs arbitrary: i)
  case Nil
  then show ?case by simp
next
  case (Cons y ys)
  then show ?case by (cases i) auto
qed

lemma ball_update:
  "(\<forall>w\<in>set xs. P w) \<Longrightarrow> P x \<Longrightarrow> \<forall>w\<in>set (xs[i := x]). P w"
  by (metis insert_iff set_update_subset_insert subsetD)

lemma ids_nth: "i < requests e \<Longrightarrow> ids e ! i = int i + 1"
  by (simp add: ids_def)

lemma receive_handling:
  "handling (receive m) = (case m of To_chn a \<Rightarrow> Some a | To_chr r \<Rightarrow> None)"
  by (cases m) (simp_all add: receive_def)

lemma wf_stateI:
  assumes "\<And>w. w \<in> set (workers s) \<Longrightarrow> wnode w < length (nodes s)"
    and "\<And>w a. w \<in> set (workers s) \<Longrightarrow> wpc w = W_send (To_chn a) \<Longrightarrow> a = wnode w"
    and "\<And>a. handling (apc s) = Some a \<Longrightarrow> a < length (nodes s)"
    and "\<And>a. a < length (nodes s) \<Longrightarrow> ID (nodes s ! a) = int a + 1"
    and "iterations e (mpc s) = length (nodes s)"
    and "length (nodes s) \<le> requests e"
    and "\<And>i. mpc s = M_go i \<Longrightarrow> i < requests e"
  shows "wf_state e s"
  using assms unfolding wf_state_def by blast

lemma wf_state_bound: "wf_state e s \<Longrightarrow> w \<in> set (workers s) \<Longrightarrow> wnode w < length (nodes s)"
  unfolding wf_state_def by blast

lemma wf_state_own:
  "wf_state e s \<Longrightarrow> w \<in> set (workers s) \<Longrightarrow> wpc w = W_send (To_chn a) \<Longrightarrow> a = wnode w"
  unfolding wf_state_def by blast

lemma wf_state_handling: "wf_state e s \<Longrightarrow> handling (apc s) = Some a \<Longrightarrow> a < length (nodes s)"
  unfolding wf_state_def by blast

lemma wf_state_ID: "wf_state e s \<Longrightarrow> a < length (nodes s) \<Longrightarrow> ID (nodes s ! a) = int a + 1"
  unfolding wf_state_def by blast

lemma wf_state_mpc:
  assumes "wf_state e s"
  shows "iterations e (mpc s) = length (nodes s)" "length (nodes s) \<le> requests e"
    "mpc s = M_go i \<Longrightarrow> i < requests e"
  using assms unfolding wf_state_def by blast+

lemma iterations_simps [simp]:
  "iterations e (M_add i) = i" "iterations e (M_go i) = i"
  "iterations e M_start = requests e" "iterations e M_wait = requests e"
  "iterations e M_blocked = requests e" "iterations e M_print = requests e"
  "iterations e M_exit = requests e"
  by (simp_all add: iterations_def)

lemma in_set_updateD: "w \<in> set (xs[i := x]) \<Longrightarrow> w = x \<or> w \<in> set xs"
  by (metis insert_iff set_update_subset_insert subsetD)

lemma fetch_msg_own: "fetch_msg n r = To_chn a \<Longrightarrow> a = n"
  by (auto simp: fetch_msg_def split: reply.splits read_result.splits if_splits)

lemma wf_state_step:
  assumes "step e s a = Some s'" and wf: "wf_state e s"
  shows "wf_state e s'"
proof -
  note b = wf_state_bound [OF wf] and o = wf_state_own [OF wf] and h = wf_state_handling [OF wf]
    and d = wf_state_ID [OF wf] and m = wf_state_mpc [OF wf]
  from assms(1) show ?thesis
  proof (cases rule: stepE)
    case (add i)
    with b o h d m show ?thesis by (intro wf_stateI) (auto split: if_splits)
  next
    case (loop_end i)
    with b o h d m show ?thesis by (intro wf_stateI) (simp_all split: if_splits)
  next
    case (go i)
    from go(1) m have len: "length (nodes s) = i" "i < requests e" by auto
    show ?thesis
    proof (rule wf_stateI)
      fix w assume "w \<in> set (workers s')"
      with go(2) b show "wnode w < length (nodes s')" by (auto simp: less_Suc_eq)
    next
      fix w a assume "w \<in> set (workers s')" "wpc w = W_send (To_chn a)"
      with go(2) o show "a = wnode w" by auto
    next
      fix a assume "handling (apc s') = Some a"
      with go(2) h show "a < length (nodes s')" by (auto simp: less_Suc_eq)
    next
      fix a assume "a < length (nodes s')"
      with go(2) have "a < length (nodes s) \<or> a = length (nodes s)" by auto
      with go(2) d len show "ID (nodes s' ! a) = int a + 1"
        by (auto simp: nth_append ids_nth)
    next
      from go(2) len show "iterations e (mpc s') = length (nodes s')" by simp
    next
      from go(2) len show "length (nodes s') \<le> requests e" by simp
    next
      fix j assume "mpc s' = M_go j" with go(2) show "j < requests e" by simp
    qed
  next
    case start
    with b o h d m show ?thesis by (intro wf_stateI) (simp_all split: if_splits)
  next
    case wait
    with b o h d m show ?thesis by (intro wf_stateI) (simp_all split: if_splits)
  next
    case wake
    with b o h d m show ?thesis by (intro wf_stateI) (simp_all split: if_splits)
  next
    case print
    with b o h d m show ?thesis by (intro wf_stateI) (simp_all split: if_splits)
  next
    case (fetch i)
    let ?w = "workers s ! i"
    from fetch(1) have mem: "?w \<in> set (workers s)" by simp
    show ?thesis
    proof (rule wf_stateI)
      fix w assume "w \<in> set (workers s')"
      with fetch(3) b mem show "wnode w < length (nodes s')" by (auto dest!: in_set_updateD)
    next
      fix w a assume "w \<in> set (workers s')" "wpc w = W_send (To_chn a)"
      with fetch(3) o show "a = wnode w" by (auto dest!: in_set_updateD fetch_msg_own)
    next
      fix a assume "handling (apc s') = Some a"
      with fetch(3) h show "a < length (nodes s')" by simp
    next
      fix a assume "a < length (nodes s')"
      with fetch(3) d show "ID (nodes s' ! a) = int a + 1" by simp
    next
      from fetch(3) m show "iterations e (mpc s') = length (nodes s')" by simp
    next
      from fetch(3) m show "length (nodes s') \<le> requests e" by simp
    next
      fix j assume "mpc s' = M_go j" with fetch(3) m show "j < requests e" by simp
    qed
  next
    case (send i m')
    let ?w = "workers s ! i"
    from send(1) have mem: "?w \<in> set (workers s)" by simp
    show ?thesis
    proof (rule wf_stateI)
      fix w assume "w \<in> set (workers s')"
      with send(4) b mem show "wnode w < length (nodes s')" by (auto dest!: in_set_updateD)
    next
      fix w a assume "w \<in> set (workers s')" "wpc w = W_send (To_chn a)"
      with send(4) o show "a = wnode w" by (auto dest!: in_set_updateD)
    next
      fix a assume "handling (apc s') = Some a"
      with send(4) have "m' = To_chn a" by (cases m') (simp_all add: receive_def)
      with o [OF mem] send(2) have "a = wnode ?w" by simp
      with b [OF mem] send(4) show "a < length (nodes s')" by simp
    next
      fix a assume "a < length (nodes s')"
      with send(4) d show "ID (nodes s' ! a) = int a + 1" by simp
    next
      from send(4) m show "iterations e (mpc s') = length (nodes s')" by simp
    next
      from send(4) m show "length (nodes s') \<le> requests e" by simp
    next
      fix j assume "mpc s' = M_go j" with send(4) m show "j < requests e" by simp
    qed
  next
    case (done' i pc)
    let ?w = "workers s ! i"
    from done'(1) have mem: "?w \<in> set (workers s)" by simp
    show ?thesis
    proof (rule wf_stateI)
      fix w assume "w \<in> set (workers s')"
      with done'(3) b mem show "wnode w < length (nodes s')" by (auto dest!: in_set_updateD)
    next
      fix w a assume "w \<in> set (workers s')" "wpc w = W_send (To_chn a)"
      with done'(3,4) o show "a = wnode w" by (auto dest!: in_set_updateD)
    next
      fix a assume "handling (apc s') = Some a"
      with done'(3) h show "a < length (nodes s')" by simp
    next
      fix a assume "a < length (nodes s')"
      with done'(3) d show "ID (nodes s' ! a) = int a + 1" by simp
    next
      from done'(3) m show "iterations e (mpc s') = length (nodes s')" by auto
    next
      from done'(3) m show "length (nodes s') \<le> requests e" by simp
    next
      fix j assume "mpc s' = M_go j" with done'(3) m show "j < requests e" by (simp split: if_splits)
    qed
  next
    case (release i n)
    let ?w = "workers s ! i"
    from release(1) have mem: "?w \<in> set (workers s)" by simp
    show ?thesis
    proof (rule wf_stateI)
      fix w assume "w \<in> set (workers s')"
      with release(3) b mem show "wnode w < length (nodes s')" by (auto dest!: in_set_updateD)
    next
      fix w a assume "w \<in> set (workers s')" "wpc w = W_send (To_chn a)"
      with release(3) o show "a = wnode w" by (auto dest!: in_set_updateD)
    next
      fix a assume "handling (apc s') = Some a"
      with release(3) h show "a < length (nodes s')" by simp
    next
      fix a assume "a < length (nodes s')"
      with release(3) d show "ID (nodes s' ! a) = int a + 1" by simp
    next
      from release(3) m show "iterations e (mpc s') = length (nodes s')" by auto
    next
      from release(3) m show "length (nodes s') \<le> requests e" by simp
    next
      fix j assume "mpc s' = M_go j" with release(3) m show "j < requests e" by (simp split: if_splits)
    qed
  next
    case default
    with wf show ?thesis by simp
  next
    case (parse_err res)
    with b o h d m show ?thesis by (intro wf_stateI) (simp_all split: if_splits)
  next
    case (parse_ok res photo)
    with b o h d m show ?thesis by (intro wf_stateI) (simp_all split: if_splits)
  next
    case (store res photo)
    with b o h d m show ?thesis by (intro wf_stateI) (simp_all split: if_splits)
  next
    case (inc node)
    with b o h d m show ?thesis by (intro wf_stateI) (simp_all add: nth_list_update)
  next
    case (check_retry node)
    with b o h d m show ?thesis by (intro wf_stateI) (simp_all split: if_splits)
  next
    case (check_drop node)
    with b o h d m show ?thesis by (intro wf_stateI) (simp_all split: if_splits)
  next
    case (println node)
    with b o h d m show ?thesis by (intro wf_stateI) (simp_all split: if_splits)
  next
    case (agg_add node)
    with b o h d m show ?thesis by (intro wf_stateI) (auto split: if_splits)
  next
    case (agg_go node)
    with b o h d m show ?thesis by (intro wf_stateI) auto
  next
    case panic
    with b o h d m show ?thesis by (intro wf_stateI) simp_all
  qed
qed


lemma length_filter_update_same:
  "i < length xs \<Longrightarrow> P x = P (xs ! i) \<Longrightarrow> length (filter P (xs[i := x])) = length (filter P xs)"
  using length_filter_update [of i xs P x] by simp

lemma attempts_of_wpc:
  assumes "i < length (workers s)" "workers s' = (workers s)[i := (workers s ! i)\<lparr>wpc := pc\<rparr>]"
  shows "attempts_of a s' = attempts_of a s"
  using assms by (simp add: attempts_of_def length_filter_update_same)

lemma pending_of_wpc:
  assumes "i < length (workers s)" "workers s' = (workers s)[i := (workers s ! i)\<lparr>wpc := pc\<rparr>]"
  shows "pending_of a s' + (if wnode (workers s ! i) = a \<and> pending (workers s ! i) then 1 else 0) =
    pending_of a s + (if wnode (workers s ! i) = a \<and> pending ((workers s ! i)\<lparr>wpc := pc\<rparr>) then 1 else 0)"
  using assms length_filter_update [of i "workers s" "\<lambda>w. wnode w = a \<and> pending w" "(workers s ! i)\<lparr>wpc := pc\<rparr>"]
  by (simp add: pending_of_def)

lemma counts_spawn:
  assumes "workers s' = workers s @ [\<lparr>wnode = n, wpc = W_fetch\<rparr>]"
  shows "attempts_of a s' = attempts_of a s + (if n = a then 1 else 0)"
    and "pending_of a s' = pending_of a s + (if n = a then 1 else 0)"
  using assms by (simp_all add: attempts_of_def pending_of_def pending_def)

lemma counts_same:
  assumes "workers s' = workers s"
  shows "attempts_of a s' = attempts_of a s" and "pending_of a s' = pending_of a s"
  using assms by (simp_all add: attempts_of_def pending_of_def)

lemma counts_fresh:
  assumes "wf_state e s"
  shows "attempts_of (length (nodes s)) s = 0" and "pending_of (length (nodes s)) s = 0"
proof -
  have "\<forall>w\<in>set (workers s). wnode w \<noteq> length (nodes s)"
    using wf_state_bound [OF assms] by fastforce
  then show "attempts_of (length (nodes s)) s = 0" "pending_of (length (nodes s)) s = 0"
    by (simp_all add: attempts_of_def pending_of_def)
qed

lemma attempt_inv_cong:
  assumes "attempts_of a s' = attempts_of a s" "pending_of a s' = pending_of a s"
    "Attempts (nodes s' ! a) = Attempts (nodes s ! a)" "apc s' = apc s"
  shows "attempt_inv s' a = attempt_inv s a"
  using assms by (simp add: attempt_inv_def)

lemma attempt_inv_step:
  assumes st: "step e s act = Some s'" and wf: "wf_state e s"
    and pre: "\<And>a. a < length (nodes s) \<Longrightarrow> attempt_inv s a"
    and a: "a < length (nodes s')"
  shows "attempt_inv s' a"
  using st
proof (cases rule: stepE)
  case (add i)
  then have ws: "workers s' = workers s" by simp
  from add have "attempt_inv s' a = attempt_inv s a"
    by (intro attempt_inv_cong counts_same [OF ws]) simp_all
  moreover from a add have "a < length (nodes s)" by simp
  ultimately show ?thesis using pre by simp
next
  case (loop_end i)
  then have ws: "workers s' = workers s" by simp
  from loop_end have "attempt_inv s' a = attempt_inv s a"
    by (intro attempt_inv_cong counts_same [OF ws]) simp_all
  moreover from a loop_end have "a < length (nodes s)" by simp
  ultimately show ?thesis using pre by simp
next
  case (go i)
  have ws: "workers s' = workers s @ [\<lparr>wnode = length (nodes s), wpc = W_fetch\<rparr>]"
    using go by simp
  note c = counts_spawn [OF ws]
  show ?thesis
  proof (cases "a = length (nodes s)")
    case True
    have "handling (apc s) \<noteq> Some a" using wf_state_handling [OF wf] True by blast
    moreover have "apc s \<noteq> A_inc a" "apc s \<noteq> A_check a" "apc s \<noteq> A_println a"
      "apc s \<noteq> A_add a" "apc s \<noteq> A_go a"
      using calculation by auto
    ultimately show ?thesis
      using c counts_fresh [OF wf] True go
      by (simp add: attempt_inv_def)
  next
    case False
    with a go have lt: "a < length (nodes s)" by simp
    with False c go have "attempt_inv s' a = attempt_inv s a"
      by (intro attempt_inv_cong) (simp_all add: nth_append)
    with pre lt show ?thesis by simp
  qed
next
  case start
  from a start have lt: "a < length (nodes s)" by simp
  from start have ws: "workers s' = workers s" by simp
  from start counts_same [OF ws, of a]
  have "attempts_of a s' = attempts_of a s" "pending_of a s' = pending_of a s"
    "nodes s' = nodes s" "apc s' = A_select"
    by simp_all
  with pre [OF lt] show ?thesis
    by (auto simp: attempt_inv_def split: if_splits)
next
  case wait
  then have ws: "workers s' = workers s" by simp
  from wait have "attempt_inv s' a = attempt_inv s a"
    by (intro attempt_inv_cong counts_same [OF ws]) simp_all
  moreover from a wait have "a < length (nodes s)" by simp
  ultimately show ?thesis using pre by simp
next
  case wake
  then have ws: "workers s' = workers s" by simp
  from wake have "attempt_inv s' a = attempt_inv s a"
    by (intro attempt_inv_cong counts_same [OF ws]) simp_all
  moreover from a wake have "a < length (nodes s)" by simp
  ultimately show ?thesis using pre by simp
next
  case print
  then have ws: "workers s' = workers s" by simp
  from print have "attempt_inv s' a = attempt_inv s a"
    by (intro attempt_inv_cong counts_same [OF ws]) simp_all
  moreover from a print have "a < length (nodes s)" by simp
  ultimately show ?thesis using pre by simp
next
  case (fetch i)
  let ?m = "fetch_msg (wnode (workers s ! i))
             (net e (ID (nodes s ! wnode (workers s ! i)))
                (Attempts (nodes s ! wnode (workers s ! i))))"
  have ws: "workers s' = (workers s)[i := (workers s ! i)\<lparr>wpc := W_send ?m\<rparr>]"
    using fetch by simp
  from a fetch have lt: "a < length (nodes s)" by simp
  have "attempts_of a s' = attempts_of a s"
    by (rule attempts_of_wpc [OF fetch(1) ws])
  moreover have "pending_of a s' = pending_of a s"
    using pending_of_wpc [OF fetch(1) ws, of a] fetch(2) by (simp add: pending_def)
  ultimately have "attempt_inv s' a = attempt_inv s a"
    using fetch by (intro attempt_inv_cong) simp_all
  with pre lt show ?thesis by simp
next
  case (send i m)
  let ?w = "workers s ! i"
  from send(1) have mem: "?w \<in> set (workers s)" by simp
  from a send have lt: "a < length (nodes s)" by simp
  have ws: "workers s' = (workers s)[i := ?w\<lparr>wpc := W_done\<rparr>]"
    using send by simp
  have at: "attempts_of a s' = attempts_of a s"
    by (rule attempts_of_wpc [OF send(1) ws])
  have pe: "pending_of a s' + (if wnode ?w = a then 1 else 0) = pending_of a s"
    using pending_of_wpc [OF send(1) ws, of a] send(2) by (simp add: pending_def)
  have nd: "nodes s' = nodes s" using send by simp
  show ?thesis
  proof (cases m)
    case (To_chr res)
    with send have "apc s' = A_parse res" by (simp add: receive_def)
    with pre [OF lt] send(3) at pe nd show ?thesis
      by (auto simp: attempt_inv_def split: if_splits)
  next
    case (To_chn b)
    with wf_state_own [OF wf mem] send(2) have b: "b = wnode ?w" by simp
    from To_chn send have ap: "apc s' = A_inc b" by (simp add: receive_def)
    with pre [OF lt] send(3) at pe nd b show ?thesis
      by (auto simp: attempt_inv_def split: if_splits)
  qed
next
  case (done' i pc)
  have ws: "workers s' = (workers s)[i := (workers s ! i)\<lparr>wpc := pc\<rparr>]"
    using done' by simp
  from a done' have lt: "a < length (nodes s)" by simp
  have "attempts_of a s' = attempts_of a s"
    by (rule attempts_of_wpc [OF done'(1) ws])
  moreover have "pending_of a s' = pending_of a s"
    using pending_of_wpc [OF done'(1) ws, of a] done'(2,4) by (auto simp: pending_def)
  ultimately have "attempt_inv s' a = attempt_inv s a"
    using done' by (intro attempt_inv_cong) simp_all
  with pre lt show ?thesis by simp
next
  case (release i n)
  have ws: "workers s' = (workers s)[i := (workers s ! i)\<lparr>wpc := W_exit\<rparr>]"
    using release by simp
  from a release have lt: "a < length (nodes s)" by simp
  have "attempts_of a s' = attempts_of a s"
    by (rule attempts_of_wpc [OF release(1) ws])
  moreover have "pending_of a s' = pending_of a s"
    using pending_of_wpc [OF release(1) ws, of a] release(2) by (simp add: pending_def)
  ultimately have "attempt_inv s' a = attempt_inv s a"
    using release by (intro attempt_inv_cong) simp_all
  with pre lt show ?thesis by simp
next
  case default
  with pre a show ?thesis by simp
next
  case (parse_err res)
  from a parse_err have lt: "a < length (nodes s)" by simp
  from parse_err have ws: "workers s' = workers s" by simp
  from parse_err counts_same [OF ws, of a]
  have "attempts_of a s' = attempts_of a s" "pending_of a s' = pending_of a s"
    "nodes s' = nodes s" "apc s' = A_select"
    by simp_all
  with pre [OF lt] parse_err(1) show ?thesis by (simp add: attempt_inv_def)
next
  case (parse_ok res photo)
  from a parse_ok have lt: "a < length (nodes s)" by simp
  from parse_ok have ws: "workers s' = workers s" by simp
  from parse_ok counts_same [OF ws, of a]
  have "attempts_of a s' = attempts_of a s" "pending_of a s' = pending_of a s"
    "nodes s' = nodes s" "apc s' = A_store res photo"
    by simp_all
  with pre [OF lt] parse_ok(1) show ?thesis by (simp add: attempt_inv_def)
next
  case (store res photo)
  from a store have lt: "a < length (nodes s)" by simp
  from store have ws: "workers s' = workers s" by simp
  from store counts_same [OF ws, of a]
  have "attempts_of a s' = attempts_of a s" "pending_of a s' = pending_of a s"
    "nodes s' = nodes s" "apc s' = A_select"
    by simp_all
  with pre [OF lt] store(1) show ?thesis by (simp add: attempt_inv_def)
next
  case (inc node)
  from a inc have lt: "a < length (nodes s)" by simp
  from inc have ws: "workers s' = workers s" by simp
  from inc counts_same [OF ws, of a]
  have c: "attempts_of a s' = attempts_of a s" "pending_of a s' = pending_of a s"
    "apc s' = A_check node"
    by simp_all
  have n: "Attempts (nodes s' ! a) = Attempts (nodes s ! a) + (if a = node then 1 else 0)"
    using inc lt by (simp add: nth_list_update)
  from pre [OF lt] inc(1) c n show ?thesis
    by (auto simp: attempt_inv_def split: if_splits)
next
  case (check_retry node)
  from a check_retry have lt: "a < length (nodes s)" by simp
  from check_retry have ws: "workers s' = workers s" by simp
  from check_retry counts_same [OF ws, of a]
  have "attempts_of a s' = attempts_of a s" "pending_of a s' = pending_of a s"
    "nodes s' = nodes s" "apc s' = A_println node"
    by simp_all
  with pre [OF lt] check_retry(1,2) show ?thesis
    by (auto simp: attempt_inv_def split: if_splits)
next
  case (check_drop node)
  from a check_drop have lt: "a < length (nodes s)" by simp
  from check_drop have ws: "workers s' = workers s" by simp
  from check_drop counts_same [OF ws, of a]
  have "attempts_of a s' = attempts_of a s" "pending_of a s' = pending_of a s"
    "nodes s' = nodes s" "apc s' = A_select"
    by simp_all
  with pre [OF lt] check_drop(1) show ?thesis
    by (auto simp: attempt_inv_def split: if_splits)
next
  case (println node)
  from a println have lt: "a < length (nodes s)" by simp
  from println have ws: "workers s' = workers s" by simp
  from println counts_same [OF ws, of a]
  have "attempts_of a s' = attempts_of a s" "pending_of a s' = pending_of a s"
    "nodes s' = nodes s" "apc s' = A_add node"
    by simp_all
  with pre [OF lt] println(1) show ?thesis
    by (auto simp: attempt_inv_def split: if_splits)
next
  case (agg_add node)
  from a agg_add have lt: "a < length (nodes s)" by simp
  from agg_add have ws: "workers s' = workers s" by simp
  from agg_add counts_same [OF ws, of a]
  have "attempts_of a s' = attempts_of a s" "pending_of a s' = pending_of a s"
    "nodes s' = nodes s" "apc s' = A_go node"
    by simp_all
  with pre [OF lt] agg_add(1) show ?thesis
    by (auto simp: attempt_inv_def split: if_splits)
next
  case (agg_go node)
  from a agg_go have lt: "a < length (nodes s)" by simp
  have ws: "workers s' = workers s @ [\<lparr>wnode = node, wpc = W_fetch\<rparr>]"
    using agg_go by simp
  note c = counts_spawn [OF ws, of a]
  from agg_go have "nodes s' = nodes s" "apc s' = A_select" by simp_all
  with pre [OF lt] agg_go(1) c show ?thesis
    by (auto simp: attempt_inv_def split: if_splits)
next
  case panic
  from panic have "attempt_inv s' a = attempt_inv s a"
    by (intro attempt_inv_cong counts_same [OF panic(4)]) simp_all
  moreover from a panic have "a < length (nodes s)" by simp
  ultimately show ?thesis using pre by simp
qed

subsection \<open>Runs keep the invariants\<close>

lemma exec_invariant:
  assumes "\<And>s a s'. P s \<Longrightarrow> step e s a = Some s' \<Longrightarrow> P s'"
    and "P s" and "exec e sched s = Some s'"
  shows "P s'"
  using assms(2,3)
proof (induction sched arbitrary: s)
  case Nil
  then show ?case by simp
next
  case (Cons a sched)
  then obtain s1 where "step e s a = Some s1" "exec e sched s1 = Some s'"
    by (auto split: option.splits)
  with Cons.IH [of s1] assms(1) [OF Cons.prems(1)] show ?case by blast
qed

lemma inv_init: "inv e init"
  by (simp add: inv_def wf_state_def init_def)

lemma inv_step: "inv e s \<Longrightarrow> step e s a = Some s' \<Longrightarrow> inv e s'"
  unfolding inv_def using wf_state_step attempt_inv_step by blast

lemma inv_exec:
  assumes "exec e sched init = Some s"
  shows "inv e s"
proof (rule exec_invariant [of "inv e" e init sched s])
  show "\<And>s a s'. inv e s \<Longrightarrow> step e s a = Some s' \<Longrightarrow> inv e s'"
    by (rule inv_step)
qed (use assms inv_init in simp_all)

subsection \<open>The store\<close>

lemma store_of_snoc: "store_of e (ms @ [m]) = store_msg e m (store_of e ms)"
  by (simp add: store_of_def)

lemma store_inv_init: "store_inv e init"
  by (simp add: store_inv_def init_def store_of_def)

lemma store_inv_step:
  assumes "store_inv e s" and "step e s a = Some s'"
  shows "store_inv e s'"
  using assms(2)
proof (cases rule: stepE)
  case (parse_err res)
  with assms(1) show ?thesis by (simp add: store_inv_def store_of_snoc store_msg_def)
next
  case (parse_ok res photo)
  with assms(1) show ?thesis by (simp add: store_inv_def)
next
  case (store res photo)
  with assms(1) show ?thesis by (simp add: store_inv_def store_of_snoc store_msg_def)
next
  case (send i m)
  with assms(1) show ?thesis by (cases m) (simp_all add: store_inv_def receive_def)
qed (use assms(1) in \<open>simp_all add: store_inv_def store_of_snoc store_msg_def\<close>)

lemma store_inv_exec:
  assumes "exec e sched init = Some s"
  shows "store_inv e s"
proof (rule exec_invariant [of "store_inv e" e init sched s])
  show "\<And>s a s'. store_inv e s \<Longrightarrow> step e s a = Some s' \<Longrightarrow> store_inv e s'"
    by (rule store_inv_step)
qed (use assms store_inv_init in simp_all)

subsection \<open>The wait group\<close>

lemma step_running: "step e s a = Some s' \<Longrightarrow> \<not> panicked s \<and> mpc s \<noteq> M_exit"
  by (auto simp: step_def split: if_splits)

lemma wg_inv_init: "wg_inv init"
  by (simp add: wg_inv_def init_def spawning_def)

lemma wg_inv_step:
  assumes pre: "wg_inv s" and st: "step e s a = Some s'"
  shows "wg_inv s'"
proof -
  from step_running [OF st] pre have nn: "0 \<le> wg s"
    and sp: "spawning (mpc s) \<Longrightarrow> apc s = A_idle"
    by (simp_all add: wg_inv_def)
  from st show ?thesis
  proof (cases rule: stepE)
    case (add i)
    with nn sp show ?thesis by (simp add: wg_inv_def spawning_def)
  next
    case wait
    with nn sp show ?thesis by (simp add: wg_inv_def spawning_def)
  next
    case (done' i pc)
    from done'(3,5) have "0 \<le> wg s'" by simp
    with done'(3) sp show ?thesis by (simp add: wg_inv_def)
  next
    case (release i n)
    from release(3,4) have "wg s' = 0" by (auto simp: wg_release_def split: if_splits)
    with release(3) sp show ?thesis by (simp add: wg_inv_def)
  next
    case (send i m)
    with nn sp show ?thesis by (auto simp: wg_inv_def spawning_def)
  next
    case (agg_add node)
    with nn sp show ?thesis by (auto simp: wg_inv_def spawning_def)
  next
    case panic
    with sp show ?thesis by (simp add: wg_inv_def)
  qed (use nn sp in \<open>auto simp: wg_inv_def spawning_def\<close>)
qed

lemma wg_inv_exec:
  assumes "exec e sched init = Some s"
  shows "wg_inv s"
proof (rule exec_invariant [of "wg_inv" e init sched s])
  show "\<And>s a s'. wg_inv s \<Longrightarrow> step e s a = Some s' \<Longrightarrow> wg_inv s'"
    by (rule wg_inv_step)
qed (use assms wg_inv_init in simp_all)

text \<open>
  The counter is never negative in a process that has not panicked, so a call \<open>Add(1)\<close>
  that does not panic leaves it positive and returns.
\<close>

lemma counter_not_negative:
  assumes "exec e sched init = Some s" and "\<not> panicked s"
  shows "0 \<le> wg s" and "\<not> panicked (wg_Add 1 s) \<Longrightarrow> wg_returns (wg_Add 1 s)"
proof -
  from wg_inv_exec [OF assms(1)] assms(2) show "0 \<le> wg s" by (simp add: wg_inv_def)
  then show "\<not> panicked (wg_Add 1 s) \<Longrightarrow> wg_returns (wg_Add 1 s)"
    by (simp add: wg_returns_def)
qed


subsection \<open>Responses come from the network\<close>

lemma pending_of_pos:
  assumes "i < length (workers s)" "wnode (workers s ! i) = a" "pending (workers s ! i)"
  shows "0 < pending_of a s"
proof -
  from assms have "workers s ! i \<in> set (filter (\<lambda>w. wnode w = a \<and> pending w) (workers s))"
    by simp
  then show ?thesis unfolding pending_of_def by (metis length_pos_if_in_set)
qed

lemma genuineI:
  assumes "\<And>w res. w \<in> set (workers s) \<Longrightarrow> wpc w = W_send (To_chr res) \<Longrightarrow> asked e res"
    and "\<And>res. apc s = A_parse res \<Longrightarrow> asked e res"
    and "\<And>res photo. apc s = A_store res photo \<Longrightarrow> asked e res"
    and "\<And>res. To_chr res \<in> set (consumed s) \<Longrightarrow> asked e res"
  shows "genuine e s"
  using assms unfolding genuine_def by blast

lemma genuine_worker:
  "genuine e s \<Longrightarrow> w \<in> set (workers s) \<Longrightarrow> wpc w = W_send (To_chr res) \<Longrightarrow> asked e res"
  unfolding genuine_def by blast

lemma genuine_parse: "genuine e s \<Longrightarrow> apc s = A_parse res \<Longrightarrow> asked e res"
  unfolding genuine_def by blast

lemma genuine_store: "genuine e s \<Longrightarrow> apc s = A_store res photo \<Longrightarrow> asked e res"
  unfolding genuine_def by blast

lemma genuine_consumed: "genuine e s \<Longrightarrow> To_chr res \<in> set (consumed s) \<Longrightarrow> asked e res"
  unfolding genuine_def by blast

lemma genuine_init: "genuine e init"
  by (simp add: genuine_def init_def)

lemma genuine_step:
  assumes g: "genuine e s" and i: "inv e s" and st: "step e s a = Some s'"
  shows "genuine e s'"
proof -
  note gw = genuine_worker [OF g] and gp = genuine_parse [OF g] and gs = genuine_store [OF g]
    and gc = genuine_consumed [OF g]
  from i have wf: "wf_state e s" and ai: "\<And>a. a < length (nodes s) \<Longrightarrow> attempt_inv s a"
    by (simp_all add: inv_def)
  from st show ?thesis
  proof (cases rule: stepE)
    case (fetch i)
    let ?w = "workers s ! i"
    let ?a = "wnode ?w"
    from fetch(1) have mem: "?w \<in> set (workers s)" by simp
    have lt: "?a < length (nodes s)" by (rule wf_state_bound [OF wf mem])
    have "pending ?w" using fetch(2) by (simp add: pending_def)
    then have "0 < pending_of ?a s" using pending_of_pos [OF fetch(1)] by simp
    with ai [OF lt] have k: "0 \<le> Attempts (nodes s ! ?a)" "Attempts (nodes s ! ?a) \<le> 3"
      by (simp_all add: attempt_inv_def)
    have rq: "?a < requests e" using lt wf_state_mpc(2) [OF wf] by simp
    have new: "asked e res"
      if "fetch_msg ?a (net e (ID (nodes s ! ?a)) (Attempts (nodes s ! ?a))) = To_chr res" for res
      unfolding asked_def using that k rq wf_state_ID [OF wf lt] by auto
    show ?thesis
    proof (rule genuineI)
      fix w res assume "w \<in> set (workers s')" "wpc w = W_send (To_chr res)"
      with fetch(3) gw new show "asked e res" by (auto dest!: in_set_updateD)
    qed (use fetch(3) gp gs gc in auto)
  next
    case (send i m)
    let ?w = "workers s ! i"
    from send(1) have mem: "?w \<in> set (workers s)" by simp
    show ?thesis
    proof (rule genuineI)
      fix w res assume "w \<in> set (workers s')" "wpc w = W_send (To_chr res)"
      with send(4) gw show "asked e res" by (auto dest!: in_set_updateD)
    next
      fix res assume "apc s' = A_parse res"
      with send(4) have "m = To_chr res" by (cases m) (simp_all add: receive_def)
      with gw [OF mem] send(2) show "asked e res" by simp
    next
      fix res photo assume "apc s' = A_store res photo"
      with send(4) show "asked e res" by (cases m) (simp_all add: receive_def)
    next
      fix res assume "To_chr res \<in> set (consumed s')"
      with send(4) gc show "asked e res" by simp
    qed
  next
    case (done' i pc)
    show ?thesis
    proof (rule genuineI)
      fix w res assume "w \<in> set (workers s')" "wpc w = W_send (To_chr res)"
      with done'(3,4) gw show "asked e res" by (auto dest!: in_set_updateD)
    qed (use done'(3) gp gs gc in auto)
  next
    case (release i n)
    show ?thesis
    proof (rule genuineI)
      fix w res assume "w \<in> set (workers s')" "wpc w = W_send (To_chr res)"
      with release(3) gw show "asked e res" by (auto dest!: in_set_updateD)
    qed (use release(3) gp gs gc in auto)
  next
    case (go i)
    then show ?thesis using gw gp gs gc by (intro genuineI) auto
  next
    case (agg_go node)
    then show ?thesis using gw gp gs gc by (intro genuineI) auto
  next
    case default
    with g show ?thesis by simp
  next
    case panic
    with g show ?thesis by (simp add: genuine_def)
  qed (use gw gp gs gc in \<open>auto intro!: genuineI\<close>)
qed


subsection \<open>Messages handed over\<close>

lemma posts_by_same: "posted s' = posted s \<Longrightarrow> posts_by i s' = posts_by i s"
  by (simp add: posts_by_def)

lemma posts_by_snoc:
  "posted s' = posted s @ [(j, m)] \<Longrightarrow>
     posts_by i s' = posts_by i s @ (if j = i then [m] else [])"
  by (simp add: posts_by_def)

lemma posts_by_none:
  assumes "\<forall>p\<in>set (posted s). fst p < n" "n \<le> i"
  shows "posts_by i s = []"
proof -
  from assms have "\<forall>p\<in>set (posted s). fst p \<noteq> i" by fastforce
  then show ?thesis by (simp add: posts_by_def)
qed

lemma in_hand_receive: "in_hand (receive m) = [m]"
  by (cases m) (simp_all add: receive_def)

lemma pending_upd [simp]:
  "pending \<lparr>wnode = n, wpc = W_fetch\<rparr>"
  "pending (w\<lparr>wpc := W_send m\<rparr>)"
  "\<not> pending (w\<lparr>wpc := W_done\<rparr>)"
  "\<not> pending (w\<lparr>wpc := W_release n\<rparr>)"
  "\<not> pending (w\<lparr>wpc := W_exit\<rparr>)"
  by (simp_all add: pending_def)

lemma pending_wpc:
  "wpc w = W_fetch \<Longrightarrow> pending w"
  "wpc w = W_send m \<Longrightarrow> pending w"
  "wpc w = W_done \<Longrightarrow> \<not> pending w"
  "wpc w = W_exit \<Longrightarrow> \<not> pending w"
  "wpc w = W_release n \<Longrightarrow> \<not> pending w"
  by (simp_all add: pending_def)

lemma posts_invI:
  assumes "\<And>p. p \<in> set (posted s) \<Longrightarrow> fst p < length (workers s)"
    and "\<And>i. i < length (workers s) \<Longrightarrow>
        length (posts_by i s) = (if pending (workers s ! i) then 0 else 1)"
    and "map snd (posted s) = consumed s @ in_hand (apc s)"
  shows "posts_inv s"
  using assms unfolding posts_inv_def by blast

lemma posts_inv_init: "posts_inv init"
  by (simp add: posts_inv_def init_def)

lemma posts_inv_step:
  assumes p: "posts_inv s" and w: "wg_inv s" and st: "step e s a = Some s'"
  shows "posts_inv s'"
proof -
  from p have b: "\<And>p. p \<in> set (posted s) \<Longrightarrow> fst p < length (workers s)"
    and c: "\<And>i. i < length (workers s) \<Longrightarrow>
        length (posts_by i s) = (if pending (workers s ! i) then 0 else 1)"
    and h: "map snd (posted s) = consumed s @ in_hand (apc s)"
    unfolding posts_inv_def by blast+
  have fresh: "posts_by (length (workers s)) s = []"
    using posts_by_none [of s "length (workers s)"] b by blast
  from st show ?thesis
  proof (cases rule: stepE)
    case (go i)
    then have ps: "posted s' = posted s" by simp
    show ?thesis
    proof (rule posts_invI)
      fix p assume "p \<in> set (posted s')"
      with go b show "fst p < length (workers s')" by (auto simp: less_Suc_eq)
    next
      fix j assume "j < length (workers s')"
      with go have "j < length (workers s) \<or> j = length (workers s)" by auto
      with go c [of j] fresh posts_by_same [OF ps, of j]
      show "length (posts_by j s') = (if pending (workers s' ! j) then 0 else 1)"
        by (auto simp: nth_append)
    next
      from go h show "map snd (posted s') = consumed s' @ in_hand (apc s')" by simp
    qed
  next
    case (agg_go node)
    then have ps: "posted s' = posted s" by simp
    show ?thesis
    proof (rule posts_invI)
      fix p assume "p \<in> set (posted s')"
      with agg_go b show "fst p < length (workers s')" by (auto simp: less_Suc_eq)
    next
      fix j assume "j < length (workers s')"
      with agg_go have "j < length (workers s) \<or> j = length (workers s)" by auto
      with agg_go c [of j] fresh posts_by_same [OF ps, of j]
      show "length (posts_by j s') = (if pending (workers s' ! j) then 0 else 1)"
        by (auto simp: nth_append)
    next
      from agg_go h show "map snd (posted s') = consumed s' @ in_hand (apc s')" by simp
    qed
  next
    case (fetch i)
    then have ps: "posted s' = posted s" by simp
    show ?thesis
    proof (rule posts_invI)
      fix p assume "p \<in> set (posted s')"
      with fetch b show "fst p < length (workers s')" by auto
    next
      fix j assume "j < length (workers s')"
      with fetch c [of j] posts_by_same [OF ps, of j] pending_wpc(1) [of "workers s ! i"]
      show "length (posts_by j s') = (if pending (workers s' ! j) then 0 else 1)"
        by (auto simp: nth_list_update)
    next
      from fetch h show "map snd (posted s') = consumed s' @ in_hand (apc s')" by simp
    qed
  next
    case (send i m)
    then have ps: "posted s' = posted s @ [(i, m)]" by simp
    show ?thesis
    proof (rule posts_invI)
      fix p assume "p \<in> set (posted s')"
      with send(4) have "p = (i, m) \<or> p \<in> set (posted s)" by auto
      with send(1,4) b [of p] show "fst p < length (workers s')" by auto
    next
      fix j assume "j < length (workers s')"
      with send c [of j] posts_by_snoc [OF ps, of j] pending_wpc(2) [of "workers s ! i" m]
      show "length (posts_by j s') = (if pending (workers s' ! j) then 0 else 1)"
        by (auto simp: nth_list_update)
    next
      from send h show "map snd (posted s') = consumed s' @ in_hand (apc s')"
        by (simp add: in_hand_receive)
    qed
  next
    case (done' i pc)
    then have ps: "posted s' = posted s" by simp
    show ?thesis
    proof (rule posts_invI)
      fix p assume "p \<in> set (posted s')"
      with done'(3) b show "fst p < length (workers s')" by auto
    next
      fix j assume "j < length (workers s')"
      with done'(1-4) c [of j] posts_by_same [OF ps, of j] pending_wpc(3) [of "workers s ! i"]
      show "length (posts_by j s') = (if pending (workers s' ! j) then 0 else 1)"
        by (auto simp: nth_list_update)
    next
      from done'(3) h show "map snd (posted s') = consumed s' @ in_hand (apc s')" by simp
    qed
  next
    case (release i n)
    then have ps: "posted s' = posted s" by simp
    show ?thesis
    proof (rule posts_invI)
      fix p assume "p \<in> set (posted s')"
      with release(3) b show "fst p < length (workers s')" by auto
    next
      fix j assume "j < length (workers s')"
      with release(1-3) c [of j] posts_by_same [OF ps, of j] pending_wpc(5) [of "workers s ! i" n]
      show "length (posts_by j s') = (if pending (workers s' ! j) then 0 else 1)"
        by (auto simp: nth_list_update)
    next
      from release(3) h show "map snd (posted s') = consumed s' @ in_hand (apc s')" by simp
    qed
  next
    case start
    moreover from start w have "apc s = A_idle" by (simp add: wg_inv_def spawning_def)
    ultimately show ?thesis using p by (simp add: posts_inv_def posts_by_def)
  next
    case default
    with p show ?thesis by simp
  qed (use p in \<open>simp_all add: posts_inv_def posts_by_def\<close>)
qed

subsection \<open>All invariants along a run\<close>

lemma invs_exec:
  assumes "exec e sched init = Some s"
  shows "inv e s \<and> genuine e s \<and> store_inv e s \<and> wg_inv s \<and> posts_inv s"
proof (rule exec_invariant
    [of "\<lambda>s. inv e s \<and> genuine e s \<and> store_inv e s \<and> wg_inv s \<and> posts_inv s" e init sched s])
  show "\<And>s a s'. inv e s \<and> genuine e s \<and> store_inv e s \<and> wg_inv s \<and> posts_inv s \<Longrightarrow>
      step e s a = Some s' \<Longrightarrow>
      inv e s' \<and> genuine e s' \<and> store_inv e s' \<and> wg_inv s' \<and> posts_inv s'"
    using inv_step genuine_step store_inv_step wg_inv_step posts_inv_step by blast
  show "inv e init \<and> genuine e init \<and> store_inv e init \<and> wg_inv init \<and> posts_inv init"
    using inv_init genuine_init store_inv_init wg_inv_init posts_inv_init by blast
  show "exec e sched init = Some s" by (rule assms)
qed

lemma sent_by_mono:
  assumes "i < length (workers s)" "length (workers s) \<le> length (workers s')"
    "wnode (workers s' ! i) = wnode (workers s ! i)"
  shows "sent_by e s' i m = sent_by e s i m"
  using assms by (simp add: sent_by_def)

lemma posts_ownI:
  assumes "\<And>i m. i < length (workers s) \<Longrightarrow> wpc (workers s ! i) = W_send m \<Longrightarrow> sent_by e s i m"
    and "\<And>p. p \<in> set (posted s) \<Longrightarrow> fst p < length (workers s)"
    and "\<And>p. p \<in> set (posted s) \<Longrightarrow> sent_by e s (fst p) (snd p)"
  shows "posts_own e s"
  using assms unfolding posts_own_def by blast

lemma posts_own_init: "posts_own e init"
  by (simp add: posts_own_def init_def)

lemma posts_own_step:
  assumes po: "posts_own e s" and i: "inv e s" and st: "step e s a = Some s'"
  shows "posts_own e s'"
proof -
  from po have w: "\<And>i m. i < length (workers s) \<Longrightarrow> wpc (workers s ! i) = W_send m \<Longrightarrow> sent_by e s i m"
    and b: "\<And>p. p \<in> set (posted s) \<Longrightarrow> fst p < length (workers s)"
    and p: "\<And>p. p \<in> set (posted s) \<Longrightarrow> sent_by e s (fst p) (snd p)"
    unfolding posts_own_def by blast+
  from i have wf: "wf_state e s" and ai: "\<And>a. a < length (nodes s) \<Longrightarrow> attempt_inv s a"
    by (simp_all add: inv_def)
  have keep: "sent_by e s' j m = sent_by e s j m"
    if "j < length (workers s)" "length (workers s) \<le> length (workers s')"
      "wnode (workers s' ! j) = wnode (workers s ! j)" for j m
    using that by (rule sent_by_mono)
  from st show ?thesis
  proof (cases rule: stepE)
    case (go i)
    have k: "sent_by e s' j m = sent_by e s j m" if "j < length (workers s)" for j m
      using that go by (intro keep) (simp_all add: nth_append)
    show ?thesis
    proof (rule posts_ownI)
      fix j m assume "j < length (workers s')" "wpc (workers s' ! j) = W_send m"
      with go have "j < length (workers s)" "wpc (workers s ! j) = W_send m"
        by (auto simp: nth_append less_Suc_eq split: if_splits)
      with w k show "sent_by e s' j m" by simp
    next
      fix q assume "q \<in> set (posted s')"
      with go b show "fst q < length (workers s')" by (auto simp: less_Suc_eq)
    next
      fix q assume "q \<in> set (posted s')"
      with go have "q \<in> set (posted s)" by simp
      with b p k show "sent_by e s' (fst q) (snd q)" by simp
    qed
  next
    case (agg_go node)
    have k: "sent_by e s' j m = sent_by e s j m" if "j < length (workers s)" for j m
      using that agg_go by (intro keep) (simp_all add: nth_append)
    show ?thesis
    proof (rule posts_ownI)
      fix j m assume "j < length (workers s')" "wpc (workers s' ! j) = W_send m"
      with agg_go have "j < length (workers s)" "wpc (workers s ! j) = W_send m"
        by (auto simp: nth_append less_Suc_eq split: if_splits)
      with w k show "sent_by e s' j m" by simp
    next
      fix q assume "q \<in> set (posted s')"
      with agg_go b show "fst q < length (workers s')" by (auto simp: less_Suc_eq)
    next
      fix q assume "q \<in> set (posted s')"
      with agg_go have "q \<in> set (posted s)" by simp
      with b p k show "sent_by e s' (fst q) (snd q)" by simp
    qed
  next
    case (fetch i)
    let ?w = "workers s ! i"
    let ?a = "wnode ?w"
    from fetch(1) have mem: "?w \<in> set (workers s)" by simp
    have lt: "?a < length (nodes s)" by (rule wf_state_bound [OF wf mem])
    have "pending ?w" using fetch(2) by (simp add: pending_def)
    then have "0 < pending_of ?a s" using pending_of_pos [OF fetch(1)] by simp
    with ai [OF lt] have at: "0 \<le> Attempts (nodes s ! ?a)" "Attempts (nodes s ! ?a) \<le> 3"
      by (simp_all add: attempt_inv_def)
    have k: "sent_by e s' j m = sent_by e s j m" if "j < length (workers s)" for j m
      using that fetch by (intro keep) (simp_all add: nth_list_update)
    have new: "sent_by e s i (fetch_msg ?a (net e (ID (nodes s ! ?a)) (Attempts (nodes s ! ?a))))"
      unfolding sent_by_def using at wf_state_ID [OF wf lt] by auto
    show ?thesis
    proof (rule posts_ownI)
      fix j m assume j: "j < length (workers s')" "wpc (workers s' ! j) = W_send m"
      show "sent_by e s' j m"
      proof (cases "j = i")
        case True
        with j fetch new k [of i] show ?thesis by simp
      next
        case False
        with j fetch w [of j m] k [of j] show ?thesis by simp
      qed
    next
      fix q assume "q \<in> set (posted s')"
      with fetch b show "fst q < length (workers s')" by simp
    next
      fix q assume "q \<in> set (posted s')"
      with fetch have "q \<in> set (posted s)" by simp
      with b p k show "sent_by e s' (fst q) (snd q)" by simp
    qed
  next
    case (send i m)
    have k: "sent_by e s' j m' = sent_by e s j m'" if "j < length (workers s)" for j m'
      using that send by (intro keep) (simp_all add: nth_list_update)
    show ?thesis
    proof (rule posts_ownI)
      fix j m' assume j: "j < length (workers s')" "wpc (workers s' ! j) = W_send m'"
      with send have "j \<noteq> i" by auto
      with j send w [of j m'] k [of j] show "sent_by e s' j m'" by simp
    next
      fix q assume "q \<in> set (posted s')"
      with send(4) have "q = (i, m) \<or> q \<in> set (posted s)" by auto
      with send(1,4) b [of q] show "fst q < length (workers s')" by auto
    next
      fix q assume "q \<in> set (posted s')"
      with send(4) have "q = (i, m) \<or> q \<in> set (posted s)" by auto
      with send(1,2) w [of i m] b [of q] p [of q] k show "sent_by e s' (fst q) (snd q)" by auto
    qed
  next
    case (done' i pc)
    have k: "sent_by e s' j m' = sent_by e s j m'" if "j < length (workers s)" for j m'
      using that done'(1-3) by (intro keep) (simp_all add: nth_list_update)
    show ?thesis
    proof (rule posts_ownI)
      fix j m' assume j: "j < length (workers s')" "wpc (workers s' ! j) = W_send m'"
      with done'(1-4) have "j \<noteq> i" by auto
      with j done'(1-3) w [of j m'] k [of j] show "sent_by e s' j m'" by simp
    next
      fix q assume "q \<in> set (posted s')"
      with done'(3) b show "fst q < length (workers s')" by simp
    next
      fix q assume "q \<in> set (posted s')"
      with done'(3) have "q \<in> set (posted s)" by simp
      with b p k show "sent_by e s' (fst q) (snd q)" by simp
    qed
  next
    case (release i n)
    have k: "sent_by e s' j m' = sent_by e s j m'" if "j < length (workers s)" for j m'
      using that release(1-3) by (intro keep) (simp_all add: nth_list_update)
    show ?thesis
    proof (rule posts_ownI)
      fix j m' assume j: "j < length (workers s')" "wpc (workers s' ! j) = W_send m'"
      with release(1-3) have "j \<noteq> i" by auto
      with j release(1-3) w [of j m'] k [of j] show "sent_by e s' j m'" by simp
    next
      fix q assume "q \<in> set (posted s')"
      with release(3) b show "fst q < length (workers s')" by simp
    next
      fix q assume "q \<in> set (posted s')"
      with release(3) have "q \<in> set (posted s)" by simp
      with b p k show "sent_by e s' (fst q) (snd q)" by simp
    qed
  next
    case default
    with po show ?thesis by simp
  next
    case panic
    with po show ?thesis by (simp add: posts_own_def sent_by_def)
  qed (use po in \<open>simp_all add: posts_own_def sent_by_def\<close>)
qed

subsection \<open>Failures and retries\<close>

lemma fetch_msg_failure: "failure r \<Longrightarrow> fetch_msg a r = To_chn a"
  by (auto simp: failure_def fetch_msg_def split: reply.splits read_result.splits if_splits)

lemma fetch_msg_success: "fetch_msg a r = To_chr res \<Longrightarrow> \<not> failure r"
  using fetch_msg_failure [of r a] by auto

lemma fetch_msg_cases:
  "fetch_msg a r = To_chn a \<and> failure r \<or>
   (\<exists>b t. r = Do_ok StatusOK (Read_ok b) t \<and> \<not> failure r \<and>
      fetch_msg a r = To_chr \<lparr>Message = ''Success'', Body = b, Time = t\<rparr>)"
  by (auto simp: failure_def fetch_msg_def split: reply.splits read_result.splits if_splits)

lemma no_retry_init: "no_retry init"
  by (simp add: no_retry_def init_def)

lemma no_retry_step:
  assumes nr: "no_retry s" and nf: "\<And>ident k. \<not> failure (net e ident k)"
    and st: "step e s a = Some s'"
  shows "no_retry s'"
proof -
  from nr have l: "length (workers s) = length (nodes s)" and h: "handling (apc s) = None"
    and w: "\<And>w a. w \<in> set (workers s) \<Longrightarrow> wpc w \<noteq> W_send (To_chn a)"
    unfolding no_retry_def by blast+
  from st show ?thesis
  proof (cases rule: stepE)
    case (go i)
    with l h w show ?thesis by (auto simp: no_retry_def)
  next
    case (fetch i)
    have "fetch_msg n (net e ident k) \<noteq> To_chn a" for n ident k a
      using fetch_msg_cases [of n "net e ident k"] nf by auto
    with fetch l h w show ?thesis by (auto simp: no_retry_def dest!: in_set_updateD)
  next
    case (send i m)
    from send(1) have "workers s ! i \<in> set (workers s)" by simp
    with w send(2) obtain res where "m = To_chr res" by (cases m) auto
    with send l h w show ?thesis by (auto simp: no_retry_def receive_def dest!: in_set_updateD)
  next
    case (done' i pc)
    with l h w show ?thesis by (auto simp: no_retry_def dest!: in_set_updateD)
  next
    case (release i n)
    with l h w show ?thesis by (auto simp: no_retry_def dest!: in_set_updateD)
  next
    case panic
    with l h w show ?thesis by (simp add: no_retry_def)
  next
    case default
    with nr show ?thesis by simp
  qed (use l h w in \<open>auto simp: no_retry_def\<close>)
qed

lemma no_retry_exec:
  assumes "exec e sched init = Some s" and "\<And>ident k. \<not> failure (net e ident k)"
  shows "no_retry s"
proof (rule exec_invariant [of no_retry e init sched s])
  show "\<And>s a s'. no_retry s \<Longrightarrow> step e s a = Some s' \<Longrightarrow> no_retry s'"
    using no_retry_step assms(2) by blast
qed (use assms(1) no_retry_init in simp_all)

lemma posts_own_exec:
  assumes "exec e sched init = Some s"
  shows "posts_own e s"
proof -
  have "inv e s \<and> posts_own e s"
  proof (rule exec_invariant [of "\<lambda>s. inv e s \<and> posts_own e s" e init sched s])
    show "\<And>s a s'. inv e s \<and> posts_own e s \<Longrightarrow> step e s a = Some s' \<Longrightarrow>
        inv e s' \<and> posts_own e s'"
      using inv_step posts_own_step by blast
    show "inv e init \<and> posts_own e init" using inv_init posts_own_init by blast
    show "exec e sched init = Some s" by (rule assms)
  qed
  then show ?thesis by simp
qed

subsection \<open>The store as a function of the consumed messages\<close>

lemma store_of_absent:
  assumes "\<forall>res photo. To_chr res \<in> set ms \<longrightarrow> parse e (Body res) = Some photo \<longrightarrow>
      Photo_ID photo \<noteq> k"
  shows "fmlookup (store_of e ms) k = None"
  using assms
proof (induction ms rule: rev_induct)
  case Nil
  then show ?case by (simp add: store_of_def)
next
  case (snoc m ms)
  then have "fmlookup (store_of e ms) k = None" by simp
  with snoc.prems show ?case
    by (cases m) (auto simp: store_of_snoc store_msg_def split: option.splits)
qed

lemma store_of_entry:
  assumes "fmlookup (store_of e ms) k = Some photo"
  shows "Photo_ID photo = k \<and> (\<exists>res. To_chr res \<in> set ms \<and> parse e (Body res) = Some photo)"
  using assms
proof (induction ms rule: rev_induct)
  case Nil
  then show ?case by (simp add: store_of_def)
next
  case (snoc m ms)
  then show ?case
    by (cases m) (auto simp: store_of_snoc store_msg_def split: option.splits if_splits)
qed

lemma store_of_present:
  assumes "To_chr res \<in> set ms" "parse e (Body res) = Some photo"
  shows "\<exists>photo' res'. fmlookup (store_of e ms) (Photo_ID photo) = Some photo' \<and>
      Photo_ID photo' = Photo_ID photo \<and> To_chr res' \<in> set ms \<and>
      parse e (Body res') = Some photo'"
proof -
  have "fmlookup (store_of e ms) (Photo_ID photo) \<noteq> None"
    using assms
  proof (induction ms rule: rev_induct)
    case Nil
    then show ?case by simp
  next
    case (snoc m ms)
    then show ?case
      by (cases m) (auto simp: store_of_snoc store_msg_def split: option.splits)
  qed
  then obtain photo' where "fmlookup (store_of e ms) (Photo_ID photo) = Some photo'" by auto
  with store_of_entry [OF this] show ?thesis by blast
qed

lemma posted_posts_by: "(i, m) \<in> set (posted s) \<longleftrightarrow> m \<in> set (posts_by i s)"
  by (force simp: posts_by_def)

subsection \<open>The example bodies\<close>

lemma body_value_photo_body: "body_value (photo_body n) = n"
proof (induction n rule: photo_body.induct)
  case (1 n)
  then show ?case by (subst photo_body.simps) auto
qed

lemma photo_body_not_empty: "photo_body n \<noteq> []"
  by (subst photo_body.simps) simp

lemma photo_body_bytes: "\<forall>b\<in>set (photo_body n). b < 256"
proof (induction n rule: photo_body.induct)
  case (1 n)
  then show ?case by (subst photo_body.simps) auto
qed

lemma photo_of_bytes_body [simp]:
  "photo_of_bytes (photo_body n) = Some \<lparr>Photo_ID = int n, Title = [], Url = [], Thumbnail = []\<rparr>"
proof (cases "photo_body n")
  case Nil
  then show ?thesis by (simp add: photo_body_not_empty)
next
  case (Cons a list)
  then have "body_value (a # list) = n"
    using body_value_photo_body [of n] by simp
  with Cons show ?thesis
    unfolding photo_of_bytes_def by (simp del: body_value.simps)
qed

section \<open>Runs with any number of identifiers\<close>

lemma exec_append:
  "exec e (xs @ ys) s = (case exec e xs s of None \<Rightarrow> None | Some s' \<Rightarrow> exec e ys s')"
  by (induction xs arbitrary: s) (auto split: option.splits)

lemma exec_appendI:
  "exec e xs s = Some s' \<Longrightarrow> exec e ys s' = Some s'' \<Longrightarrow> exec e (xs @ ys) s = Some s''"
  by (simp add: exec_append)

lemma spawned_init: "spawned 0 init"
  by (simp add: spawned_def init_def)

lemma spawned_step:
  assumes "spawned k s" "k < requests e"
  shows "\<exists>s'. exec e [Main, Main] s = Some s' \<and> spawned (Suc k) s'"
  using assms
  by (simp add: spawned_def step_def main_step_def wg_Add_def ids_nth)

lemma spawned_loop:
  assumes "k \<le> requests e"
  shows "\<exists>s. exec e (replicate (2 * k) Main) init = Some s \<and> spawned k s"
  using assms
proof (induction k)
  case 0
  then show ?case by (simp add: spawned_init)
next
  case (Suc k)
  then obtain s where s: "exec e (replicate (2 * k) Main) init = Some s" "spawned k s"
    by (metis Suc_leD)
  from Suc.prems have "k < requests e" by simp
  from spawned_step [OF s(2) this] obtain s'
    where s': "exec e [Main, Main] s = Some s'" "spawned (Suc k) s'" by blast
  have "replicate (2 * Suc k) Main = replicate (2 * k) Main @ [Main, Main]"
    using replicate_add [of "2 * k" 2 Main] by (simp add: numeral_2_eq_2)
  with exec_appendI [OF s(1) s'(1)] s'(2) show ?case by metis
qed

lemma seed_ready:
  assumes "0 < requests e"
  shows "\<exists>s. exec e (seed (requests e)) init = Some s \<and> ready (requests e) 0 s"
proof -
  let ?n = "requests e"
  from spawned_loop [of ?n e] obtain s
    where s: "exec e (replicate (2 * ?n) Main) init = Some s" "spawned ?n s" by blast
  from s(2) assms have "\<exists>s'. exec e [Main, Main, Main] s = Some s' \<and> ready ?n 0 s'"
    by (simp add: spawned_def ready_def step_def main_step_def wg_Wait_def)
  then obtain s' where s': "exec e [Main, Main, Main] s = Some s'" "ready ?n 0 s'" by blast
  have "seed ?n = replicate (2 * ?n) Main @ [Main, Main, Main]"
    using replicate_add [of "2 * ?n" 3 Main] by (simp add: seed_def numeral_3_eq_3)
  with exec_appendI [OF s(1) s'(1)] s'(2) show ?thesis by metis
qed

lemma workers_returned:
  assumes "j < n"
  shows "(map (\<lambda>i. \<lparr>wnode = i, wpc = (if i < j then W_exit else W_fetch)\<rparr>) [0..<n])
      [j := \<lparr>wnode = j, wpc = W_exit\<rparr>] =
    map (\<lambda>i. \<lparr>wnode = i, wpc = (if i < Suc j then W_exit else W_fetch)\<rparr>) [0..<n]"
  using assms by (intro nth_equalityI) (auto simp: nth_list_update less_Suc_eq)

lemma handled_ready:
  assumes r: "ready n j s" and j: "Suc j < n"
    and m: "fetch_msg j (net e (int j + 1) 0) = To_chr res"
    and p: "parse e (Body res) = Some photo" and k: "Photo_ID photo = int j + 1"
  shows "\<exists>s'. exec e (handled j) s = Some s' \<and> ready n (Suc j) s'"
proof -
  from j have jn: "j < n" by simp
  from r jn have w: "workers s ! j = \<lparr>wnode = j, wpc = W_fetch\<rparr>" "length (workers s) = n"
    and nd: "nodes s ! j = \<lparr>ID = int j + 1, Attempts = 0\<rparr>"
    by (simp_all add: ready_def)
  from r have b: "mpc s = M_blocked" "apc s = A_select" "\<not> panicked s" "wg s = int n - int j"
    "waiters s = 1" "sema s = 0"
    by (simp_all add: ready_def)
  from r have ws: "workers s =
      map (\<lambda>i. \<lparr>wnode = i, wpc = (if i < j then W_exit else W_fetch)\<rparr>) [0..<n]"
    by (simp add: ready_def)
  have "exec e (handled j) s =
    Some (s\<lparr>wg := wg s - 1,
            workers := (workers s)[j := \<lparr>wnode = j, wpc = W_exit\<rparr>],
            apc := A_select,
            photos := fmupd (Photo_ID photo) photo (photos s),
            posted := posted s @ [(j, To_chr res)],
            consumed := consumed s @ [To_chr res]\<rparr>)"
    using w nd b jn j m p
    by (simp add: handled_def step_def worker_step_def agg_step_def receive_def wg_Add_def
        wg_returns_def)
  moreover have "ready n (Suc j)
     (s\<lparr>wg := wg s - 1,
            workers := (workers s)[j := \<lparr>wnode = j, wpc = W_exit\<rparr>],
            apc := A_select,
            photos := fmupd (Photo_ID photo) photo (photos s),
            posted := posted s @ [(j, To_chr res)],
            consumed := consumed s @ [To_chr res]\<rparr>)"
    using r jn k workers_returned [OF jn]
    by (auto simp: ready_def)
  ultimately show ?thesis by blast
qed


lemma handled_upto_Suc: "handled_upto (Suc m) = handled_upto m @ handled m"
  by (simp add: handled_upto_def)

lemma handled_upto_ready:
  assumes "ready n 0 s" "m < n"
    and "\<forall>j<m. \<exists>res photo. fetch_msg j (net e (int j + 1) 0) = To_chr res \<and>
      parse e (Body res) = Some photo \<and> Photo_ID photo = int j + 1"
  shows "\<exists>s'. exec e (handled_upto m) s = Some s' \<and> ready n m s'"
  using assms(2,3)
proof (induction m)
  case 0
  with assms(1) show ?case by (simp add: handled_upto_def)
next
  case (Suc m)
  then obtain s1 where s1: "exec e (handled_upto m) s = Some s1" "ready n m s1"
    by (metis Suc_lessD less_Suc_eq)
  from Suc.prems(2) obtain res photo
    where "fetch_msg m (net e (int m + 1) 0) = To_chr res" "parse e (Body res) = Some photo"
      "Photo_ID photo = int m + 1"
    by blast
  from handled_ready [OF s1(2) Suc.prems(1) this] obtain s2
    where s2: "exec e (handled m) s1 = Some s2" "ready n (Suc m) s2" by blast
  from exec_appendI [OF s1(1) s2(1)] s2(2) show ?case
    by (metis handled_upto_Suc)
qed

text \<open>All workers but the last have been handled, after \<open>main\<close> has blocked in \<open>wg.Wait()\<close>.\<close>

lemma all_but_last:
  assumes "requests e = Suc j"
    and "\<forall>i<j. \<exists>res photo. fetch_msg i (net e (int i + 1) 0) = To_chr res \<and>
      parse e (Body res) = Some photo \<and> Photo_ID photo = int i + 1"
  shows "\<exists>s. exec e (seed (Suc j) @ handled_upto j) init = Some s \<and> ready (Suc j) j s"
proof -
  from seed_ready [of e] assms(1) obtain s0
    where s0: "exec e (seed (Suc j)) init = Some s0" "ready (Suc j) 0 s0" by auto
  from handled_upto_ready [OF s0(2) _ assms(2)] obtain s
    where s: "exec e (handled_upto j) s0 = Some s" "ready (Suc j) j s" by blast
  from exec_appendI [OF s0(1) s(1)] s(2) show ?thesis by blast
qed

lemma ready_nth:
  assumes "ready n j s" "j < n"
  shows "workers s ! j = \<lparr>wnode = j, wpc = W_fetch\<rparr>" "length (workers s) = n"
    "nodes s ! j = \<lparr>ID = int j + 1, Attempts = 0\<rparr>" "length (nodes s) = n"
  using assms by (simp_all add: ready_def)

lemma hasty_window:
  assumes r: "ready (Suc j) j s"
  shows "exec e (hasty j) s =
    Some (s\<lparr>wg := 0,
            workers := (workers s)[j := \<lparr>wnode = j, wpc = W_release 1\<rparr>],
            apc := receive (fetch_msg j (net e (int j + 1) 0)),
            posted := posted s @ [(j, fetch_msg j (net e (int j + 1) 0))]\<rparr>)"
proof -
  from ready_nth [OF r]
  have w: "workers s ! j = \<lparr>wnode = j, wpc = W_fetch\<rparr>" "length (workers s) = Suc j"
    and nd: "nodes s ! j = \<lparr>ID = int j + 1, Attempts = 0\<rparr>"
    by simp_all
  from r have b: "mpc s = M_blocked" "apc s = A_select" "\<not> panicked s" "wg s = 1"
    "waiters s = 1" "sema s = 0"
    unfolding ready_def by simp_all
  from w nd b show ?thesis
    by (simp add: hasty_def step_def worker_step_def wg_Add_def wg_returns_def)
qed

lemma released_run:
  assumes "i < length (workers s)" "workers s ! i = \<lparr>wnode = a, wpc = W_release 1\<rparr>"
    "mpc s = M_blocked" "\<not> panicked s" "wg s = 0" "waiters s = 1" "sema s = 0"
  shows "exec e (released i) s =
    Some (s\<lparr>mpc := M_print, waiters := 0,
            workers := (workers s)[i := \<lparr>wnode = a, wpc = W_exit\<rparr>]\<rparr>)"
  using assms
  by (simp add: released_def step_def worker_step_def main_step_def wg_release_def wg_wake_def)

lemma hasty_last:
  assumes r: "ready (Suc j) j s"
  shows "exec e (hasty j @ released j) s =
    Some (s\<lparr>mpc := M_print, wg := 0, waiters := 0,
            workers := (workers s)[j := \<lparr>wnode = j, wpc = W_exit\<rparr>],
            apc := receive (fetch_msg j (net e (int j + 1) 0)),
            posted := posted s @ [(j, fetch_msg j (net e (int j + 1) 0))]\<rparr>)"
proof -
  let ?s1 = "s\<lparr>wg := 0,
            workers := (workers s)[j := \<lparr>wnode = j, wpc = W_release 1\<rparr>],
            apc := receive (fetch_msg j (net e (int j + 1) 0)),
            posted := posted s @ [(j, fetch_msg j (net e (int j + 1) 0))]\<rparr>"
  from ready_nth [OF r] have l: "length (workers s) = Suc j" by simp
  from r have b: "mpc s = M_blocked" "\<not> panicked s" "waiters s = 1" "sema s = 0"
    unfolding ready_def by simp_all
  have "exec e (released j) ?s1 =
    Some (?s1\<lparr>mpc := M_print, waiters := 0,
            workers := (workers ?s1)[j := \<lparr>wnode = j, wpc = W_exit\<rparr>]\<rparr>)"
    using l b by (intro released_run) simp_all
  from exec_appendI [OF hasty_window [OF r] this] show ?thesis by simp
qed

lemma handled_last:
  assumes r: "ready (Suc j) j s"
    and m: "fetch_msg j (net e (int j + 1) 0) = To_chr res"
    and p: "parse e (Body res) = Some photo"
  shows "exec e (handled j @ released j) s =
    Some (s\<lparr>mpc := M_print, wg := 0, waiters := 0,
            workers := (workers s)[j := \<lparr>wnode = j, wpc = W_exit\<rparr>],
            apc := A_select,
            photos := fmupd (Photo_ID photo) photo (photos s),
            posted := posted s @ [(j, To_chr res)],
            consumed := consumed s @ [To_chr res]\<rparr>)"
proof -
  from ready_nth [OF r]
  have w: "workers s ! j = \<lparr>wnode = j, wpc = W_fetch\<rparr>" "length (workers s) = Suc j"
    and nd: "nodes s ! j = \<lparr>ID = int j + 1, Attempts = 0\<rparr>"
    by simp_all
  from r have b: "mpc s = M_blocked" "apc s = A_select" "\<not> panicked s" "wg s = 1"
    "waiters s = 1" "sema s = 0"
    unfolding ready_def by simp_all
  let ?s1 = "s\<lparr>wg := 0,
            workers := (workers s)[j := \<lparr>wnode = j, wpc = W_release 1\<rparr>],
            apc := A_select,
            photos := fmupd (Photo_ID photo) photo (photos s),
            posted := posted s @ [(j, To_chr res)],
            consumed := consumed s @ [To_chr res]\<rparr>"
  from w nd b m p have h: "exec e (handled j) s = Some ?s1"
    by (simp add: handled_def step_def worker_step_def agg_step_def receive_def wg_Add_def
        wg_returns_def)
  have "exec e (released j) ?s1 =
    Some (?s1\<lparr>mpc := M_print, waiters := 0,
            workers := (workers ?s1)[j := \<lparr>wnode = j, wpc = W_exit\<rparr>]\<rparr>)"
    using w b by (intro released_run) simp_all
  from exec_appendI [OF h this] show ?thesis by simp
qed

lemma env_last_others:
  assumes "i < j"
  shows "\<exists>res photo. fetch_msg i (net (env_last (Suc j)) (int i + 1) 0) = To_chr res \<and>
      parse (env_last (Suc j)) (Body res) = Some photo \<and> Photo_ID photo = int i + 1"
  using assms
  by (simp add: env_last_def serve_def fetch_msg_def parse_def)

lemma env_last_last: "fetch_msg j (net (env_last (Suc j)) (int j + 1) 0) = To_chn j"
  by (simp add: env_last_def fetch_msg_def)

lemma env_echo_all:
  "fetch_msg i (net (env_echo n) (int i + 1) 0) =
      To_chr \<lparr>Message = ''Success'', Body = photo_body (Suc i), Time = 5\<rparr> \<and>
   parse (env_echo n) (photo_body (Suc i)) = Some \<lparr>Photo_ID = int i + 1, Title = [], Url = [], Thumbnail = []\<rparr>"
  by (simp add: env_echo_def serve_def fetch_msg_def parse_def nat_add_distrib)

lemma requests_default_Suc: "requests_default = Suc 4499"
  by (simp add: requests_default_def)

lemma env_echo_others:
  "\<exists>res photo. fetch_msg i (net (env_echo n) (int i + 1) 0) = To_chr res \<and>
      parse (env_echo n) (Body res) = Some photo \<and> Photo_ID photo = int i + 1"
  using env_echo_all [of i n] by auto

lemma env_next_others:
  assumes "i < j"
  shows "\<exists>res photo. fetch_msg i (net (env_next (Suc j)) (int i + 1) 0) = To_chr res \<and>
      parse (env_next (Suc j)) (Body res) = Some photo \<and> Photo_ID photo = int i + 1"
  using assms
  by (simp add: env_next_def serve_def fetch_msg_def parse_def)

lemma env_next_last:
  "fetch_msg j (net (env_next (Suc j)) (int j + 1) 0) =
      To_chr \<lparr>Message = ''Success'', Body = photo_body (Suc (Suc j)), Time = 5\<rparr> \<and>
   parse (env_next (Suc j)) (photo_body (Suc (Suc j))) =
      Some \<lparr>Photo_ID = int j + 2, Title = [], Url = [], Thumbnail = []\<rparr>"
  by (simp add: env_next_def serve_def fetch_msg_def parse_def)

lemma ready_absent: "ready n j s \<Longrightarrow> fmlookup (photos s) (int j + 1) = None"
  unfolding ready_def by (metis add_le_same_cancel1 not_one_le_zero)

lemma main_reports:
  assumes "mpc s = M_print" "\<not> panicked s"
  shows "exec e [Main] s = Some (s\<lparr>mpc := M_exit, out := out s @ print (photos s)\<rparr>)"
  using assms by (simp add: step_def main_step_def)

text \<open>
  For any number \<open>j + 1\<close> of identifiers: when the request for the last one fails and its
  worker calls \<open>wg.Done()\<close> right after its send, the counter is zero with the failure in
  the aggregator's hand (\<open>hasty_counter\<close>), and then \<open>main\<close> is released
  (\<open>hasty_failure\<close>).
\<close>

lemma hasty_counter:
  "\<exists>s. exec (env_last (Suc j)) (seed (Suc j) @ handled_upto j @ hasty j) init = Some s \<and>
     mpc s = M_blocked \<and> wg s = 0 \<and> waiters s = 1 \<and> sema s = 0 \<and> apc s = A_inc j \<and>
     \<not> panicked s \<and> length (workers s) = Suc j \<and>
     workers s ! j = \<lparr>wnode = j, wpc = W_release 1\<rparr> \<and> length (consumed s) = j \<and>
     length (nodes s) = Suc j \<and> nodes s ! j = \<lparr>ID = int j + 1, Attempts = 0\<rparr>"
proof -
  let ?e = "env_last (Suc j)"
  have "requests ?e = Suc j" by (simp add: env_last_def)
  from all_but_last [OF this] env_last_others obtain s0
    where s0: "exec ?e (seed (Suc j) @ handled_upto j) init = Some s0" "ready (Suc j) j s0"
    by blast
  note h = hasty_window [OF s0(2), of ?e]
  from exec_appendI [OF s0(1) h]
  have "exec ?e (seed (Suc j) @ handled_upto j @ hasty j) init =
    Some (s0\<lparr>wg := 0,
            workers := (workers s0)[j := \<lparr>wnode = j, wpc = W_release 1\<rparr>],
            apc := receive (fetch_msg j (net ?e (int j + 1) 0)),
            posted := posted s0 @ [(j, fetch_msg j (net ?e (int j + 1) 0))]\<rparr>)"
    by simp
  moreover from s0(2) have "\<not> panicked s0" "length (consumed s0) = j" "mpc s0 = M_blocked"
    "waiters s0 = 1" "sema s0 = 0"
    unfolding ready_def by simp_all
  ultimately show ?thesis
    using ready_nth [OF s0(2)] env_last_last [of j]
    by (simp add: receive_def)
qed

lemma hasty_failure:
  "\<exists>s. exec (env_last (Suc j)) (seed (Suc j) @ handled_upto j @ hasty j @ released j) init =
       Some s \<and>
     mpc s = M_print \<and> wg s = 0 \<and> waiters s = 0 \<and> apc s = A_inc j \<and> \<not> panicked s \<and>
     length (workers s) = Suc j \<and> length (consumed s) = j \<and>
     length (nodes s) = Suc j \<and> nodes s ! j = \<lparr>ID = int j + 1, Attempts = 0\<rparr> \<and>
     posts_by (Suc j) s = []"
proof -
  let ?e = "env_last (Suc j)"
  have "requests ?e = Suc j" by (simp add: env_last_def)
  from all_but_last [OF this] env_last_others obtain s0
    where s0: "exec ?e (seed (Suc j) @ handled_upto j) init = Some s0" "ready (Suc j) j s0"
    by blast
  note h = hasty_last [OF s0(2), of ?e]
  from exec_appendI [OF s0(1) h]
  have run: "exec ?e (seed (Suc j) @ handled_upto j @ hasty j @ released j) init =
    Some (s0\<lparr>mpc := M_print, wg := 0, waiters := 0,
            workers := (workers s0)[j := \<lparr>wnode = j, wpc = W_exit\<rparr>],
            apc := receive (fetch_msg j (net ?e (int j + 1) 0)),
            posted := posted s0 @ [(j, fetch_msg j (net ?e (int j + 1) 0))]\<rparr>)"
    (is "_ = Some ?s1")
    by simp
  from invs_exec [OF run] have "\<forall>p\<in>set (posted ?s1). fst p < length (workers ?s1)"
    unfolding posts_inv_def by blast
  with ready_nth(2) [OF s0(2)] have "posts_by (Suc j) ?s1 = []"
    by (intro posts_by_none [of _ "Suc j"]) simp_all
  moreover from s0(2) have "\<not> panicked s0" "length (consumed s0) = j"
    unfolding ready_def by simp_all
  ultimately show ?thesis
    using run ready_nth [OF s0(2)] env_last_last [of j]
    by (simp add: receive_def)
qed


lemma respawn_after_release:
  assumes s: "mpc s = M_print" "wg s = 0" "apc s = A_inc j" "\<not> panicked s"
    "length (nodes s) = Suc j" "nodes s ! j = \<lparr>ID = int j + 1, Attempts = 0\<rparr>" "waiters s = 0"
  shows "exec e [Agg, Agg, Agg, Agg, Agg] s =
    Some (s\<lparr>wg := 1, apc := A_select,
            nodes := (nodes s)[j := \<lparr>ID = int j + 1, Attempts = 1\<rparr>],
            workers := workers s @ [\<lparr>wnode = j, wpc = W_fetch\<rparr>],
            out := out s @ [Retrying_line (int j + 1) 1],
            consumed := consumed s @ [To_chn j]\<rparr>)"
  using s by (simp add: step_def agg_step_def wg_Add_def)

lemma handled_run:
  assumes "i < length (workers s)" "workers s ! i = \<lparr>wnode = a, wpc = W_fetch\<rparr>"
    "nodes s ! a = \<lparr>ID = int a + 1, Attempts = k\<rparr>"
    "fetch_msg a (net e (int a + 1) k) = To_chr res" "parse e (Body res) = Some photo"
    "apc s = A_select" "mpc s = M_blocked" "\<not> panicked s" "1 < wg s"
  shows "exec e (handled i) s =
    Some (s\<lparr>wg := wg s - 1,
            workers := (workers s)[i := \<lparr>wnode = a, wpc = W_exit\<rparr>],
            apc := A_select,
            photos := fmupd (Photo_ID photo) photo (photos s),
            posted := posted s @ [(i, To_chr res)],
            consumed := consumed s @ [To_chr res]\<rparr>)"
  using assms
  by (simp add: handled_def step_def worker_step_def agg_step_def receive_def wg_Add_def
      wg_returns_def)

lemma retried_run:
  assumes "i < length (workers s)" "workers s ! i = \<lparr>wnode = a, wpc = W_fetch\<rparr>"
    "a < length (nodes s)" "nodes s ! a = \<lparr>ID = int a + 1, Attempts = k\<rparr>" "k \<le> 2"
    "fetch_msg a (net e (int a + 1) k) = To_chn a"
    "apc s = A_select" "mpc s = M_blocked" "\<not> panicked s" "0 < wg s"
  shows "exec e (retried i) s =
    Some (s\<lparr>workers := (workers s)[i := \<lparr>wnode = a, wpc = W_exit\<rparr>] @ [\<lparr>wnode = a, wpc = W_fetch\<rparr>],
            apc := A_select,
            nodes := (nodes s)[a := \<lparr>ID = int a + 1, Attempts = k + 1\<rparr>],
            out := out s @ [Retrying_line (int a + 1) (k + 1)],
            posted := posted s @ [(i, To_chn a)],
            consumed := consumed s @ [To_chn a]\<rparr>)"
  using assms
  by (simp add: retried_def step_def worker_step_def agg_step_def receive_def wg_Add_def
      wg_returns_def nth_append list_update_append)

lemma dropped_run:
  assumes "i < length (workers s)" "workers s ! i = \<lparr>wnode = a, wpc = W_fetch\<rparr>"
    "a < length (nodes s)" "nodes s ! a = \<lparr>ID = int a + 1, Attempts = 3\<rparr>"
    "fetch_msg a (net e (int a + 1) 3) = To_chn a"
    "apc s = A_select" "mpc s = M_blocked" "\<not> panicked s" "wg s = 1"
    "waiters s = 1" "sema s = 0"
  shows "exec e (handled i @ released i) s =
    Some (s\<lparr>mpc := M_print, wg := 0, waiters := 0,
            nodes := (nodes s)[a := \<lparr>ID = int a + 1, Attempts = 4\<rparr>],
            workers := (workers s)[i := \<lparr>wnode = a, wpc = W_exit\<rparr>],
            apc := A_select,
            posted := posted s @ [(i, To_chn a)],
            consumed := consumed s @ [To_chn a]\<rparr>)"
proof -
  let ?s1 = "s\<lparr>wg := 0,
            nodes := (nodes s)[a := \<lparr>ID = int a + 1, Attempts = 4\<rparr>],
            workers := (workers s)[i := \<lparr>wnode = a, wpc = W_release 1\<rparr>],
            apc := A_select,
            posted := posted s @ [(i, To_chn a)],
            consumed := consumed s @ [To_chn a]\<rparr>"
  from assms have h: "exec e (handled i) s = Some ?s1"
    by (simp add: handled_def step_def worker_step_def agg_step_def receive_def wg_Add_def
        wg_returns_def)
  have "exec e (released i) ?s1 =
    Some (?s1\<lparr>mpc := M_print, waiters := 0,
            workers := (workers ?s1)[i := \<lparr>wnode = a, wpc = W_exit\<rparr>]\<rparr>)"
    using assms by (intro released_run) simp_all
  from exec_appendI [OF h this] show ?thesis by simp
qed


lemma ready_nth_later:
  assumes "ready n j s" "i < n" "j \<le> i"
  shows "workers s ! i = \<lparr>wnode = i, wpc = W_fetch\<rparr>"
    "nodes s ! i = \<lparr>ID = int i + 1, Attempts = 0\<rparr>"
  using assms by (simp_all add: ready_def)

lemma retried_facts:
  assumes "i < length (workers s)" "workers s ! i = \<lparr>wnode = a, wpc = W_fetch\<rparr>"
    "a < length (nodes s)" "nodes s ! a = \<lparr>ID = int a + 1, Attempts = k\<rparr>" "k \<le> 2"
    "fetch_msg a (net e (int a + 1) k) = To_chn a"
    "apc s = A_select" "mpc s = M_blocked" "\<not> panicked s" "0 < wg s"
  shows "\<exists>s'. exec e (retried i) s = Some s' \<and>
    length (workers s') = Suc (length (workers s)) \<and>
    workers s' ! length (workers s) = \<lparr>wnode = a, wpc = W_fetch\<rparr> \<and>
    length (nodes s') = length (nodes s) \<and>
    nodes s' ! a = \<lparr>ID = int a + 1, Attempts = k + 1\<rparr> \<and>
    apc s' = A_select \<and> mpc s' = M_blocked \<and> \<not> panicked s' \<and> wg s' = wg s \<and>
    photos s' = photos s \<and> waiters s' = waiters s \<and> sema s' = sema s"
  using retried_run [OF assms] assms
  by (simp add: nth_append)

lemma env_stray_others:
  assumes "i < j"
  shows "\<exists>res photo. fetch_msg i (net (env_stray (Suc (Suc j))) (int i + 1) 0) = To_chr res \<and>
      parse (env_stray (Suc (Suc j))) (Body res) = Some photo \<and> Photo_ID photo = int i + 1"
  using assms
  by (simp add: env_stray_def serve_def fetch_msg_def parse_def)

lemma env_stray_stray:
  "fetch_msg j (net (env_stray (Suc (Suc j))) (int j + 1) 0) =
      To_chr \<lparr>Message = ''Success'', Body = photo_body (Suc (Suc j)), Time = 5\<rparr> \<and>
   parse (env_stray (Suc (Suc j))) (photo_body (Suc (Suc j))) =
      Some \<lparr>Photo_ID = int j + 2, Title = [], Url = [], Thumbnail = []\<rparr>"
  by (simp add: env_stray_def serve_def fetch_msg_def parse_def)

lemma env_stray_last:
  "net (env_stray (Suc (Suc j))) (int (Suc j) + 1) k = Do_error"
  by (simp add: env_stray_def)

text \<open>
  For any number \<open>j + 2\<close> of identifiers: the last identifier fails four times and is
  dropped, and the photo that the server sent for the identifier before it is stored
  under the last identifier.
\<close>

lemma stray_photo:
  "\<exists>s. exec (env_stray (Suc (Suc j)))
        (seed (Suc (Suc j)) @ handled_upto j @ handled j @ retried (Suc j) @
         retried (j + 2) @ retried (j + 3) @ handled (j + 4) @ released (j + 4) @
         [Main]) init = Some s \<and>
     mpc s = M_exit \<and> apc s = A_select \<and> length (workers s) = j + 5 \<and>
     nodes s ! Suc j = \<lparr>ID = int j + 2, Attempts = 4\<rparr> \<and>
     fmlookup (photos s) (int j + 2) =
       Some \<lparr>Photo_ID = int j + 2, Title = [], Url = [], Thumbnail = []\<rparr>"
proof -
  let ?n = "Suc (Suc j)"
  let ?e = "env_stray ?n"
  let ?r = "\<lparr>Message = ''Success'', Body = photo_body (Suc (Suc j)), Time = 5\<rparr>"
  let ?p = "\<lparr>Photo_ID = int j + 2, Title = [], Url = [], Thumbnail = []\<rparr>"
  have f: "fetch_msg (Suc j) (net ?e (int (Suc j) + 1) k) = To_chn (Suc j)" for k
    by (simp add: env_stray_def fetch_msg_def)
  have "requests ?e = Suc (Suc j)" by (simp add: env_stray_def)
  from seed_ready [of ?e] this obtain sa
    where sa: "exec ?e (seed ?n) init = Some sa" "ready ?n 0 sa" by auto
  from handled_upto_ready [OF sa(2), of j ?e] env_stray_others obtain s0
    where s0: "exec ?e (handled_upto j) sa = Some s0" "ready ?n j s0" by auto
  from s0(2) have b0: "mpc s0 = M_blocked" "apc s0 = A_select" "\<not> panicked s0" "wg s0 = 2"
    "waiters s0 = 1" "sema s0 = 0"
    unfolding ready_def by simp_all
  note n0 = ready_nth [OF s0(2), of ] 
  have w0: "workers s0 ! j = \<lparr>wnode = j, wpc = W_fetch\<rparr>" "length (workers s0) = ?n"
    "nodes s0 ! j = \<lparr>ID = int j + 1, Attempts = 0\<rparr>" "length (nodes s0) = ?n"
    using ready_nth [OF s0(2)] by simp_all
  have w0': "workers s0 ! Suc j = \<lparr>wnode = Suc j, wpc = W_fetch\<rparr>"
    "nodes s0 ! Suc j = \<lparr>ID = int (Suc j) + 1, Attempts = 0\<rparr>"
    using ready_nth_later [OF s0(2), of "Suc j"] by simp_all
  from env_stray_stray [of j]
  have m: "fetch_msg j (net ?e (int j + 1) 0) = To_chr ?r" and p: "parse ?e (Body ?r) = Some ?p"
    by simp_all
  let ?s1 = "s0\<lparr>wg := wg s0 - 1,
            workers := (workers s0)[j := \<lparr>wnode = j, wpc = W_exit\<rparr>],
            apc := A_select,
            photos := fmupd (Photo_ID ?p) ?p (photos s0),
            posted := posted s0 @ [(j, To_chr ?r)],
            consumed := consumed s0 @ [To_chr ?r]\<rparr>"
  have h1: "exec ?e (handled j) s0 = Some ?s1"
    using w0 b0 by (intro handled_run [OF _ _ _ m p]) simp_all
  have "\<exists>s2. exec ?e (retried (Suc j)) ?s1 = Some s2 \<and>
    length (workers s2) = Suc (length (workers ?s1)) \<and>
    workers s2 ! length (workers ?s1) = \<lparr>wnode = Suc j, wpc = W_fetch\<rparr> \<and>
    length (nodes s2) = length (nodes ?s1) \<and>
    nodes s2 ! Suc j = \<lparr>ID = int (Suc j) + 1, Attempts = 0 + 1\<rparr> \<and>
    apc s2 = A_select \<and> mpc s2 = M_blocked \<and> \<not> panicked s2 \<and> wg s2 = wg ?s1 \<and>
    photos s2 = photos ?s1 \<and> waiters s2 = waiters ?s1 \<and> sema s2 = sema ?s1"
    using w0 w0' b0 f by (intro retried_facts) simp_all
  then obtain s2 where s2: "exec ?e (retried (Suc j)) ?s1 = Some s2"
    "length (workers s2) = j + 3" "workers s2 ! (j + 2) = \<lparr>wnode = Suc j, wpc = W_fetch\<rparr>"
    "length (nodes s2) = ?n" "nodes s2 ! Suc j = \<lparr>ID = int (Suc j) + 1, Attempts = 1\<rparr>"
    "apc s2 = A_select" "mpc s2 = M_blocked" "\<not> panicked s2" "wg s2 = 1"
    "photos s2 = fmupd (Photo_ID ?p) ?p (photos s0)" "waiters s2 = 1" "sema s2 = 0"
    using w0 b0 by auto
  have "\<exists>s3. exec ?e (retried (j + 2)) s2 = Some s3 \<and>
    length (workers s3) = Suc (length (workers s2)) \<and>
    workers s3 ! length (workers s2) = \<lparr>wnode = Suc j, wpc = W_fetch\<rparr> \<and>
    length (nodes s3) = length (nodes s2) \<and>
    nodes s3 ! Suc j = \<lparr>ID = int (Suc j) + 1, Attempts = 1 + 1\<rparr> \<and>
    apc s3 = A_select \<and> mpc s3 = M_blocked \<and> \<not> panicked s3 \<and> wg s3 = wg s2 \<and>
    photos s3 = photos s2 \<and> waiters s3 = waiters s2 \<and> sema s3 = sema s2"
    using s2 f by (intro retried_facts) simp_all
  then obtain s3 where s3: "exec ?e (retried (j + 2)) s2 = Some s3"
    "length (workers s3) = j + 4" "workers s3 ! (j + 3) = \<lparr>wnode = Suc j, wpc = W_fetch\<rparr>"
    "length (nodes s3) = ?n" "nodes s3 ! Suc j = \<lparr>ID = int (Suc j) + 1, Attempts = 2\<rparr>"
    "apc s3 = A_select" "mpc s3 = M_blocked" "\<not> panicked s3" "wg s3 = 1"
    "photos s3 = fmupd (Photo_ID ?p) ?p (photos s0)" "waiters s3 = 1" "sema s3 = 0"
    using s2 by auto
  have "\<exists>s4. exec ?e (retried (j + 3)) s3 = Some s4 \<and>
    length (workers s4) = Suc (length (workers s3)) \<and>
    workers s4 ! length (workers s3) = \<lparr>wnode = Suc j, wpc = W_fetch\<rparr> \<and>
    length (nodes s4) = length (nodes s3) \<and>
    nodes s4 ! Suc j = \<lparr>ID = int (Suc j) + 1, Attempts = 2 + 1\<rparr> \<and>
    apc s4 = A_select \<and> mpc s4 = M_blocked \<and> \<not> panicked s4 \<and> wg s4 = wg s3 \<and>
    photos s4 = photos s3 \<and> waiters s4 = waiters s3 \<and> sema s4 = sema s3"
    using s3 f by (intro retried_facts) simp_all
  then obtain s4 where s4: "exec ?e (retried (j + 3)) s3 = Some s4"
    "length (workers s4) = j + 5" "workers s4 ! (j + 4) = \<lparr>wnode = Suc j, wpc = W_fetch\<rparr>"
    "length (nodes s4) = ?n" "nodes s4 ! Suc j = \<lparr>ID = int (Suc j) + 1, Attempts = 3\<rparr>"
    "apc s4 = A_select" "mpc s4 = M_blocked" "\<not> panicked s4" "wg s4 = 1"
    "photos s4 = fmupd (Photo_ID ?p) ?p (photos s0)" "waiters s4 = 1" "sema s4 = 0"
    using s3 by auto
  let ?s5 = "s4\<lparr>mpc := M_print, wg := 0, waiters := 0,
            nodes := (nodes s4)[Suc j := \<lparr>ID = int (Suc j) + 1, Attempts = 4\<rparr>],
            workers := (workers s4)[j + 4 := \<lparr>wnode = Suc j, wpc = W_exit\<rparr>],
            apc := A_select,
            posted := posted s4 @ [(j + 4, To_chn (Suc j))],
            consumed := consumed s4 @ [To_chn (Suc j)]\<rparr>"
  have h5: "exec ?e (handled (j + 4) @ released (j + 4)) s4 = Some ?s5"
    using s4 f by (intro dropped_run) simp_all
  have h6: "exec ?e [Main] ?s5 = Some (?s5\<lparr>mpc := M_exit, out := out ?s5 @ print (photos ?s5)\<rparr>)"
    using s4 by (intro main_reports) simp_all
  from exec_appendI [OF sa(1) exec_appendI [OF s0(1) exec_appendI [OF h1 exec_appendI [OF s2(1)
    exec_appendI [OF s3(1) exec_appendI [OF s4(1) exec_appendI [OF h5 h6]]]]]]]
  have "exec ?e (seed ?n @ handled_upto j @ handled j @ retried (Suc j) @
         retried (j + 2) @ retried (j + 3) @ handled (j + 4) @ released (j + 4) @
         [Main]) init =
      Some (?s5\<lparr>mpc := M_exit, out := out ?s5 @ print (photos ?s5)\<rparr>)"
    by simp
  with s4 show ?thesis by simp
qed

lemma ready_nth_earlier:
  assumes "ready n j s" "i < j" "j \<le> n"
  shows "workers s ! i = \<lparr>wnode = i, wpc = W_exit\<rparr>"
  using assms by (simp add: ready_def)

lemma env_twin_msg:
  assumes "i = j \<or> i = Suc j"
  shows "fetch_msg a (net (env_twin (Suc (Suc j))) (int i + 1) k) =
      To_chr \<lparr>Message = ''Success'', Body = photo_body (Suc j), Time = 5\<rparr>"
  using assms by (auto simp: env_twin_def serve_def fetch_msg_def nat_add_distrib)

lemma env_twin_others:
  assumes "i < Suc j"
  shows "\<exists>res photo. fetch_msg i (net (env_twin (Suc (Suc j))) (int i + 1) 0) = To_chr res \<and>
      parse (env_twin (Suc (Suc j))) (Body res) = Some photo \<and> Photo_ID photo = int i + 1"
  using assms
  by (simp add: env_twin_def serve_def fetch_msg_def parse_def)

lemma env_twin_parse:
  "parse (env_twin (Suc (Suc j))) (photo_body (Suc j)) =
      Some \<lparr>Photo_ID = int j + 1, Title = [], Url = [], Thumbnail = []\<rparr>"
  by (simp add: env_twin_def parse_def)

text \<open>
  For any number \<open>j + 2\<close> of identifiers: the workers for the last two identifiers hand
  over the same message, and the map has no entry under the last identifier.
\<close>

lemma twin_messages:
  "\<exists>s. exec (env_twin (Suc (Suc j)))
        (seed (Suc (Suc j)) @ handled_upto (Suc j) @ handled (Suc j) @ released (Suc j) @
         [Main]) init = Some s \<and>
     mpc s = M_exit \<and>
     posts_by j s = [To_chr \<lparr>Message = ''Success'', Body = photo_body (Suc j), Time = 5\<rparr>] \<and>
     posts_by (Suc j) s = [To_chr \<lparr>Message = ''Success'', Body = photo_body (Suc j), Time = 5\<rparr>] \<and>
     wnode (workers s ! j) = j \<and> wnode (workers s ! Suc j) = Suc j \<and>
     ID (nodes s ! j) = int j + 1 \<and> ID (nodes s ! Suc j) = int j + 2 \<and>
     fmlookup (photos s) (int j + 2) = None \<and>
     fmlookup (photos s) (int j + 1) =
       Some \<lparr>Photo_ID = int j + 1, Title = [], Url = [], Thumbnail = []\<rparr>"
proof -
  let ?n = "Suc (Suc j)"
  let ?e = "env_twin ?n"
  let ?r = "\<lparr>Message = ''Success'', Body = photo_body (Suc j), Time = 5\<rparr>"
  let ?p = "\<lparr>Photo_ID = int j + 1, Title = [], Url = [], Thumbnail = []\<rparr>"
  have "requests ?e = Suc (Suc j)" by (simp add: env_twin_def)
  from all_but_last [OF this] env_twin_others obtain s0
    where s0: "exec ?e (seed ?n @ handled_upto (Suc j)) init = Some s0" "ready ?n (Suc j) s0"
    by blast
  from s0(2) have np: "\<not> panicked s0" unfolding ready_def by simp
  from ready_absent [OF s0(2)] have none: "fmlookup (photos s0) (int j + 2) = None"
    by (simp add: add.commute)
  have wj: "workers s0 ! j = \<lparr>wnode = j, wpc = W_exit\<rparr>"
    using ready_nth_earlier [OF s0(2), of j] by simp
  note nl = ready_nth [OF s0(2)]
  have nj: "nodes s0 ! j = \<lparr>ID = int j + 1, Attempts = 0\<rparr>"
    using s0(2) unfolding ready_def by (simp add: nth_append)
  note inv = invs_exec [OF s0(1)] and po = posts_own_exec [OF s0(1)]
  from inv nl have c: "length (posts_by i s0) = (if pending (workers s0 ! i) then 0 else 1)"
    if "i < ?n" for i
    using that unfolding posts_inv_def by simp
  from c [of "Suc j"] nl have last0: "posts_by (Suc j) s0 = []" by (simp add: pending_def)
  from c [of j] wj have "length (posts_by j s0) = 1" by (simp add: pending_def)
  then obtain m where pm: "posts_by j s0 = [m]"
    by (cases "posts_by j s0") auto
  then have "(j, m) \<in> set (posted s0)" by (simp add: posted_posts_by)
  with po have "sent_by ?e s0 j m" unfolding posts_own_def by fastforce
  with wj env_twin_msg [of j j j] have "m = To_chr ?r"
    by (auto simp: sent_by_def)
  with pm have prev: "posts_by j s0 = [To_chr ?r]" by simp
  from env_twin_msg [of "Suc j" j "Suc j" 0]
  have m: "fetch_msg (Suc j) (net ?e (int (Suc j) + 1) 0) = To_chr ?r" by simp
  have p: "parse ?e (Body ?r) = Some ?p" using env_twin_parse [of j] by simp
  let ?s1 = "s0\<lparr>mpc := M_print, wg := 0, waiters := 0,
            workers := (workers s0)[Suc j := \<lparr>wnode = Suc j, wpc = W_exit\<rparr>],
            apc := A_select,
            photos := fmupd (Photo_ID ?p) ?p (photos s0),
            posted := posted s0 @ [(Suc j, To_chr ?r)],
            consumed := consumed s0 @ [To_chr ?r]\<rparr>"
  have h1: "exec ?e (handled (Suc j) @ released (Suc j)) s0 = Some ?s1"
    by (rule handled_last [OF s0(2) m p])
  have r1: "exec ?e [Main] ?s1 = Some (?s1\<lparr>mpc := M_exit, out := out ?s1 @ print (photos ?s1)\<rparr>)"
    using np by (intro main_reports) simp_all
  from exec_appendI [OF s0(1) exec_appendI [OF h1 r1]]
  have a: "exec ?e (seed ?n @ handled_upto (Suc j) @ handled (Suc j) @ released (Suc j) @
         [Main]) init =
      Some (?s1\<lparr>mpc := M_exit, out := out ?s1 @ print (photos ?s1)\<rparr>)"
    by simp
  have pj: "posts_by j (?s1\<lparr>mpc := M_exit, out := out ?s1 @ print (photos ?s1)\<rparr>) = [To_chr ?r]"
    using prev by (simp add: posts_by_def)
  have pl: "posts_by (Suc j) (?s1\<lparr>mpc := M_exit, out := out ?s1 @ print (photos ?s1)\<rparr>) = [To_chr ?r]"
    using last0 by (simp add: posts_by_def)
  from a pj pl none wj nj nl show ?thesis
    by (intro exI [of _ "?s1\<lparr>mpc := M_exit, out := out ?s1 @ print (photos ?s1)\<rparr>"]) simp
qed

section \<open>The retry limit (C3)\<close>

text \<open>
  C3 as stated fails: with the \<open>requests = 4500\<close> of the source, the four requests for
  photo 4500 failing and the server answering the request for photo 4499 with photo 4500,
  the run below handles all four failures of identifier 4500, reports and exits with an
  entry under key 4500 in the map.
\<close>

theorem exhausted_identifier_in_store:
  "failure (net (env_stray requests_default) 4500 0) \<and>
   failure (net (env_stray requests_default) 4500 1) \<and>
   failure (net (env_stray requests_default) 4500 2) \<and>
   failure (net (env_stray requests_default) 4500 3) \<and>
   (\<exists>s. exec (env_stray requests_default)
        (seed requests_default @ handled_upto 4498 @ handled 4498 @ retried 4499 @
         retried 4500 @ retried 4501 @ handled 4502 @ released 4502 @ [Main]) init = Some s \<and>
      mpc s = M_exit \<and> apc s = A_select \<and> length (workers s) = 4503 \<and>
      nodes s ! 4499 = \<lparr>ID = 4500, Attempts = 4\<rparr> \<and>
      fmlookup (photos s) 4500 =
        Some \<lparr>Photo_ID = 4500, Title = [], Url = [], Thumbnail = []\<rparr>)"
proof (intro conjI)
  show "failure (net (env_stray requests_default) 4500 0)"
    "failure (net (env_stray requests_default) 4500 1)"
    "failure (net (env_stray requests_default) 4500 2)"
    "failure (net (env_stray requests_default) 4500 3)"
    by (simp_all add: env_stray_def requests_default_def failure_def fetch_msg_def)
  have d: "requests_default = Suc (Suc 4498)" by (simp add: requests_default_def)
  from stray_photo [of 4498]
  show "\<exists>s. exec (env_stray requests_default)
        (seed requests_default @ handled_upto 4498 @ handled 4498 @ retried 4499 @
         retried 4500 @ retried 4501 @ handled 4502 @ released 4502 @ [Main]) init = Some s \<and>
      mpc s = M_exit \<and> apc s = A_select \<and> length (workers s) = 4503 \<and>
      nodes s ! 4499 = \<lparr>ID = 4500, Attempts = 4\<rparr> \<and>
      fmlookup (photos s) 4500 =
        Some \<lparr>Photo_ID = 4500, Title = [], Url = [], Thumbnail = []\<rparr>"
    unfolding d by simp
qed

text \<open>
  C3, amended: in every state of every run, at most four workers have been spawned for
  any node, its \<open>Attempts\<close> is at most 4, and once it is 4 no worker of the node is
  pending; node \<open>a\<close> holds identifier \<open>a + 1\<close>.  An identifier whose first four requests
  all fail has no entry in the map, provided that no answer to one of the four requests
  for another identifier of the run parses to a photo whose \<open>ID\<close> is that identifier (the
  map is keyed by the \<open>ID\<close> of the parsed photo).
\<close>

theorem at_most_four_attempts:
  assumes run: "exec e sched init = Some s"
  shows "(\<forall>a<length (nodes s).
            attempts_of a s \<le> 4 \<and> Attempts (nodes s ! a) \<le> 4 \<and>
            (4 \<le> Attempts (nodes s ! a) \<longrightarrow> pending_of a s = 0) \<and>
            ID (nodes s ! a) = int a + 1) \<and>
         (\<forall>ident.
            (\<forall>k. 0 \<le> k \<and> k \<le> 3 \<longrightarrow> failure (net e ident k)) \<and>
            (\<forall>a k res photo. a < requests e \<and> int a + 1 \<noteq> ident \<and> 0 \<le> k \<and> k \<le> 3 \<and>
               fetch_msg a (net e (int a + 1) k) = To_chr res \<and>
               parse e (Body res) = Some photo \<longrightarrow> Photo_ID photo \<noteq> ident) \<longrightarrow>
            fmlookup (photos s) ident = None)"
proof (intro conjI allI impI)
  note i = invs_exec [OF run]
  from i have wf: "wf_state e s" by (simp add: inv_def)
  fix a assume a: "a < length (nodes s)"
  with i have ai: "attempt_inv s a" by (simp add: inv_def)
  from ai show "attempts_of a s \<le> 4" "Attempts (nodes s ! a) \<le> 4"
    by (simp_all add: attempt_inv_def)
  from wf_state_ID [OF wf a] show "ID (nodes s ! a) = int a + 1" .
  assume "4 \<le> Attempts (nodes s ! a)"
  with ai show "pending_of a s = 0" by (auto simp: attempt_inv_def)
next
  fix ident
  assume h: "(\<forall>k. 0 \<le> k \<and> k \<le> 3 \<longrightarrow> failure (net e ident k)) \<and>
            (\<forall>a k res photo. a < requests e \<and> int a + 1 \<noteq> ident \<and> 0 \<le> k \<and> k \<le> 3 \<and>
               fetch_msg a (net e (int a + 1) k) = To_chr res \<and>
               parse e (Body res) = Some photo \<longrightarrow> Photo_ID photo \<noteq> ident)"
  note i = invs_exec [OF run]
  have "Photo_ID photo \<noteq> ident"
    if c: "To_chr res \<in> set (consumed s)" and p: "parse e (Body res) = Some photo" for res photo
  proof -
    from i c have "asked e res" using genuine_consumed by blast
    then obtain a k where k: "a < requests e" "0 \<le> k" "k \<le> 3"
      and m: "fetch_msg a (net e (int a + 1) k) = To_chr res"
      unfolding asked_def by blast
    from fetch_msg_success [OF m] have "\<not> failure (net e (int a + 1) k)" .
    with h k have "int a + 1 \<noteq> ident" by blast
    with h k m p show ?thesis by blast
  qed
  then have "fmlookup (store_of e (consumed s)) ident = None"
    by (intro store_of_absent) blast
  with i show "fmlookup (photos s) ident = None" by (simp add: store_inv_def)
qed

lemma env_five_echo:
  assumes "fetch_msg a (net env_five (int a + 1) k) = To_chr res"
    and "parse env_five (Body res) = Some photo"
  shows "Photo_ID photo = int a + 1"
  using assms
  by (auto simp: env_five_def serve_def fetch_msg_def StatusOK_def parse_def nat_add_distrib
      split: if_splits)

theorem at_most_four_attempts_witness:
  "\<exists>s. exec env_five
        (seed 5 @ handled 0 @ handled 2 @ retried 1 @ retried 3 @ retried 5 @ retried 6 @
         retried 7 @ retried 8 @ handled 9 @ handled 10 @ handled 4 @ released 4 @ [Main]) init = Some s \<and>
     mpc s = M_exit \<and> length (nodes s) = 5 \<and> attempts_of 1 s = 4 \<and> Attempts (nodes s ! 1) = 4 \<and>
     pending_of 1 s = 0 \<and> ID (nodes s ! 1) = 2 \<and> fmlookup (photos s) 2 = None \<and> keys s = [1, 3, 5]"
proof -
  let ?sched = "seed 5 @ handled 0 @ handled 2 @ retried 1 @ retried 3 @ retried 5 @ retried 6 @
         retried 7 @ retried 8 @ handled 9 @ handled 10 @ handled 4 @ released 4 @ [Main]"
  have "case exec env_five ?sched init of
      Some s \<Rightarrow> mpc s = M_exit \<and> length (nodes s) = 5 \<and> attempts_of 1 s = 4 \<and>
        Attempts (nodes s ! 1) = 4 \<and> keys s = [1, 3, 5]
    | None \<Rightarrow> False"
    by code_simp
  then obtain s where run: "exec env_five ?sched init = Some s"
    and s: "mpc s = M_exit" "length (nodes s) = 5" "attempts_of 1 s = 4"
      "Attempts (nodes s ! 1) = 4" "keys s = [1, 3, 5]"
    by (auto split: option.splits)
  note t = at_most_four_attempts [OF run]
  have f: "\<forall>k. 0 \<le> k \<and> k \<le> 3 \<longrightarrow> failure (net env_five 2 k)"
    by (simp add: env_five_def failure_def fetch_msg_def)
  have o: "\<forall>a k res photo. a < requests env_five \<and> int a + 1 \<noteq> 2 \<and> 0 \<le> k \<and> k \<le> 3 \<and>
      fetch_msg a (net env_five (int a + 1) k) = To_chr res \<and>
      parse env_five (Body res) = Some photo \<longrightarrow> Photo_ID photo \<noteq> 2"
    using env_five_echo by fastforce
  from t f o have "fmlookup (photos s) 2 = None" by blast
  moreover from t s(2,4) have "pending_of 1 s = 0" "ID (nodes s ! 1) = 2" by auto
  ultimately show ?thesis using run s by blast
qed

section \<open>What the map holds (C4, C5)\<close>

lemma store_of_last:
  assumes "To_chr res \<in> set ms" "parse e (Body res) = Some photo"
    and "\<forall>res' photo'. To_chr res' \<in> set ms \<and> parse e (Body res') = Some photo' \<and>
      Photo_ID photo' = Photo_ID photo \<longrightarrow> photo' = photo"
  shows "fmlookup (store_of e ms) (Photo_ID photo) = Some photo"
proof -
  from store_of_present [OF assms(1,2)] obtain photo' res'
    where "fmlookup (store_of e ms) (Photo_ID photo) = Some photo'"
      "Photo_ID photo' = Photo_ID photo" "To_chr res' \<in> set ms" "parse e (Body res') = Some photo'"
    by blast
  with assms(3) show ?thesis by blast
qed

text \<open>
  C4 as stated fails: with the \<open>requests = 4500\<close> of the source and a server that answers
  the request for photo 4500 with photo 4501 (and the others with the photo asked for),
  the first attempt for identifier 4500 succeeds and its payload parses, the aggregator
  handles it before the worker calls \<open>wg.Done()\<close>, and the run exits with no entry under
  key 4500: the entry is under key 4501.
\<close>

theorem fetched_identifier_not_in_store:
  "\<exists>s. exec (env_next requests_default)
          (seed requests_default @ handled_upto 4499 @ handled 4499 @ released 4499 @ [Main])
          init = Some s \<and>
     mpc s = M_exit \<and> apc s = A_select \<and>
     fetch_msg 4499 (net (env_next requests_default) 4500 0) =
       To_chr \<lparr>Message = ''Success'', Body = photo_body 4501, Time = 5\<rparr> \<and>
     parse (env_next requests_default) (photo_body 4501) =
       Some \<lparr>Photo_ID = 4501, Title = [], Url = [], Thumbnail = []\<rparr> \<and>
     last (consumed s) = To_chr \<lparr>Message = ''Success'', Body = photo_body 4501, Time = 5\<rparr> \<and>
     fmlookup (photos s) 4500 = None \<and>
     fmlookup (photos s) 4501 = Some \<lparr>Photo_ID = 4501, Title = [], Url = [], Thumbnail = []\<rparr>"
proof -
  let ?e = "env_next (Suc 4499)"
  let ?r = "\<lparr>Message = ''Success'', Body = photo_body (Suc (Suc 4499)), Time = 5\<rparr>"
  let ?p = "\<lparr>Photo_ID = int 4499 + 2, Title = [], Url = [], Thumbnail = []\<rparr>"
  have "requests ?e = Suc 4499" by (simp add: env_next_def)
  from all_but_last [OF this] env_next_others obtain s0
    where s0: "exec ?e (seed (Suc 4499) @ handled_upto 4499) init = Some s0" "ready (Suc 4499) 4499 s0"
    by blast
  from s0(2) have np: "\<not> panicked s0" unfolding ready_def by simp
  note none = ready_absent [OF s0(2)]
  from env_next_last [of 4499]
  have m: "fetch_msg 4499 (net ?e (int 4499 + 1) 0) = To_chr ?r" and p: "parse ?e (Body ?r) = Some ?p"
    by simp_all
  let ?s1 = "s0\<lparr>mpc := M_print, wg := 0, waiters := 0,
            workers := (workers s0)[4499 := \<lparr>wnode = 4499, wpc = W_exit\<rparr>],
            apc := A_select,
            photos := fmupd (Photo_ID ?p) ?p (photos s0),
            posted := posted s0 @ [(4499, To_chr ?r)],
            consumed := consumed s0 @ [To_chr ?r]\<rparr>"
  have h1: "exec ?e (handled 4499 @ released 4499) s0 = Some ?s1"
    by (rule handled_last [OF s0(2) m p])
  have r1: "exec ?e [Main] ?s1 = Some (?s1\<lparr>mpc := M_exit, out := out ?s1 @ print (photos ?s1)\<rparr>)"
    using np by (intro main_reports) simp_all
  from exec_appendI [OF s0(1) exec_appendI [OF h1 r1]]
  have a: "exec ?e (seed (Suc 4499) @ handled_upto 4499 @ handled 4499 @ released 4499 @ [Main])
      init =
      Some (?s1\<lparr>mpc := M_exit, out := out ?s1 @ print (photos ?s1)\<rparr>)"
    by simp
  from a none m p show ?thesis
    by (simp add: requests_default_Suc)
qed

text \<open>
  C4, amended: in every state of every run, for every response the aggregator has
  finished handling and whose body parses to a photo, the map has an entry under the
  \<open>ID\<close> of that photo (which is the identifier fetched only if the server's answer
  carries it), and the entry is a photo with that \<open>ID\<close> parsed from a handled response;
  it is that very photo when no handled response parses to another photo with the same
  \<open>ID\<close>.  Nothing is said about responses the aggregator has not finished handling when
  the report reads the map.
\<close>

theorem consumed_success_is_stored:
  assumes run: "exec e sched init = Some s"
    and c: "To_chr res \<in> set (consumed s)" and p: "parse e (Body res) = Some photo"
  shows "(\<exists>photo' res'. fmlookup (photos s) (Photo_ID photo) = Some photo' \<and>
            Photo_ID photo' = Photo_ID photo \<and> To_chr res' \<in> set (consumed s) \<and>
            parse e (Body res') = Some photo') \<and>
         ((\<forall>res' photo'. To_chr res' \<in> set (consumed s) \<and> parse e (Body res') = Some photo' \<and>
             Photo_ID photo' = Photo_ID photo \<longrightarrow> photo' = photo) \<longrightarrow>
          fmlookup (photos s) (Photo_ID photo) = Some photo)"
proof -
  from invs_exec [OF run] have st: "photos s = store_of e (consumed s)"
    by (simp add: store_inv_def)
  show ?thesis
    unfolding st using store_of_present [OF c p] store_of_last [OF c p] by blast
qed

theorem consumed_success_is_stored_witness:
  "\<exists>s. exec (env_echo 1) (seed 1 @ handled 0 @ released 0 @ [Main]) init = Some s \<and> mpc s = M_exit \<and>
     consumed s = [To_chr \<lparr>Message = ''Success'', Body = photo_body 1, Time = 5\<rparr>] \<and>
     fmlookup (photos s) 1 = Some \<lparr>Photo_ID = 1, Title = [], Url = [], Thumbnail = []\<rparr>"
proof -
  let ?r = "\<lparr>Message = ''Success'', Body = photo_body 1, Time = 5\<rparr>"
  let ?p = "\<lparr>Photo_ID = 1, Title = [], Url = [], Thumbnail = []\<rparr>"
  have "case exec (env_echo 1) (seed 1 @ handled 0 @ released 0 @ [Main]) init of
      Some s \<Rightarrow> mpc s = M_exit \<and> consumed s = [To_chr ?r] | None \<Rightarrow> False"
    by code_simp
  then obtain s where run: "exec (env_echo 1) (seed 1 @ handled 0 @ released 0 @ [Main]) init = Some s"
    and s: "mpc s = M_exit" "consumed s = [To_chr ?r]"
    by (auto split: option.splits)
  have p: "parse (env_echo 1) (Body ?r) = Some ?p"
    by (simp add: parse_def env_echo_def)
  from s have c: "To_chr ?r \<in> set (consumed s)" by simp
  from consumed_success_is_stored [OF run c p] s(2) p
  have "fmlookup (photos s) 1 = Some ?p" by simp
  with run s show ?thesis by blast
qed

text \<open>
  C5 as stated fails: with the \<open>requests = 4500\<close> of the source and a server that answers
  the request for photo 4500 with photo 4499 (and the others with the photo asked for),
  the workers for identifiers 4499 and 4500 hand over the same message, which names no
  identifier, and the run exits with the photo under key 4499 and no entry under 4500.
\<close>

theorem success_message_names_no_identifier:
  "\<exists>s. exec (env_twin requests_default)
        (seed requests_default @ handled_upto 4499 @ handled 4499 @ released 4499 @ [Main])
          init = Some s \<and>
     mpc s = M_exit \<and>
     posts_by 4498 s = [To_chr \<lparr>Message = ''Success'', Body = photo_body 4499, Time = 5\<rparr>] \<and>
     posts_by 4499 s = [To_chr \<lparr>Message = ''Success'', Body = photo_body 4499, Time = 5\<rparr>] \<and>
     ID (nodes s ! wnode (workers s ! 4498)) = 4499 \<and>
     ID (nodes s ! wnode (workers s ! 4499)) = 4500 \<and>
     fmlookup (photos s) 4500 = None \<and>
     fmlookup (photos s) 4499 = Some \<lparr>Photo_ID = 4499, Title = [], Url = [], Thumbnail = []\<rparr>"
proof -
  have d: "requests_default = Suc (Suc 4498)" by (simp add: requests_default_def)
  from twin_messages [of 4498] show ?thesis
    unfolding d by auto
qed

text \<open>
  C5, amended: in every state of every run, (1) a success message handed over by a worker
  is the record of the constant \<open>"Success"\<close>, the body and the elapsed time of the
  network's answer to one of the four requests for the identifier of the worker's node,
  and nothing else; (2) when the aggregator has received a response whose body parses to
  a photo, its next two steps insert that photo into the map under the \<open>ID\<close> of the
  photo, change no other entry, and take it back to the \<open>select\<close> (and it can take them
  while the process runs); (3) for every response the aggregator has finished handling
  and whose body parses to a photo, the map has an entry under the \<open>ID\<close> of that photo;
  (4) every entry of the map is stored under the \<open>ID\<close> of the photo it holds, a photo
  parsed from the body of a response the aggregator has handled.
\<close>

theorem store_keyed_by_payload_ID:
  assumes run: "exec e sched init = Some s"
  shows "(\<forall>p\<in>set (posted s). \<forall>res. snd p = To_chr res \<longrightarrow>
            fst p < length (workers s) \<and> wnode (workers s ! fst p) < length (nodes s) \<and>
            res = \<lparr>Message = ''Success'', Body = Body res, Time = Time res\<rparr> \<and>
            (\<exists>k. 0 \<le> k \<and> k \<le> 3 \<and>
               net e (ID (nodes s ! wnode (workers s ! fst p))) k =
                 Do_ok StatusOK (Read_ok (Body res)) (Time res))) \<and>
         (\<forall>res photo. apc s = A_parse res \<and> parse e (Body res) = Some photo \<longrightarrow>
            (\<exists>s1 s2. agg_step e s = Some s1 \<and> agg_step e s1 = Some s2 \<and>
               apc s1 = A_store res photo \<and> photos s1 = photos s \<and>
               photos s2 = fmupd (Photo_ID photo) photo (photos s) \<and>
               fmlookup (photos s2) (Photo_ID photo) = Some photo \<and>
               apc s2 = A_select \<and> consumed s2 = consumed s @ [To_chr res] \<and>
               (mpc s \<noteq> M_exit \<and> \<not> panicked s \<longrightarrow> exec e [Agg, Agg] s = Some s2))) \<and>
         (\<forall>res photo. To_chr res \<in> set (consumed s) \<and> parse e (Body res) = Some photo \<longrightarrow>
            (\<exists>photo'. fmlookup (photos s) (Photo_ID photo) = Some photo' \<and>
               Photo_ID photo' = Photo_ID photo)) \<and>
         (\<forall>k photo. fmlookup (photos s) k = Some photo \<longrightarrow>
            Photo_ID photo = k \<and>
            (\<exists>res. To_chr res \<in> set (consumed s) \<and> parse e (Body res) = Some photo))"
proof (intro conjI ballI allI impI)
  note i = invs_exec [OF run]
  from i have wf: "wf_state e s" by (simp add: inv_def)
  note po = posts_own_exec [OF run]
  fix p res assume p: "p \<in> set (posted s)" and r: "snd p = To_chr res"
  from po p have b: "fst p < length (workers s)" and sb: "sent_by e s (fst p) (snd p)"
    unfolding posts_own_def by blast+
  let ?a = "wnode (workers s ! fst p)"
  from b have "workers s ! fst p \<in> set (workers s)" by simp
  from wf_state_bound [OF wf this] have lt: "?a < length (nodes s)" .
  from sb r obtain k where k: "0 \<le> k" "k \<le> 3"
    and m: "fetch_msg ?a (net e (int ?a + 1) k) = To_chr res"
    unfolding sent_by_def by auto
  from fetch_msg_cases [of ?a "net e (int ?a + 1) k"] m
  obtain b' t where n: "net e (int ?a + 1) k = Do_ok StatusOK (Read_ok b') t"
    and res: "res = \<lparr>Message = ''Success'', Body = b', Time = t\<rparr>"
    by auto
  show "fst p < length (workers s)" by (rule b)
  show "?a < length (nodes s)" by (rule lt)
  from res show "res = \<lparr>Message = ''Success'', Body = Body res, Time = Time res\<rparr>" by simp
  from k n res wf_state_ID [OF wf lt]
  show "\<exists>k. 0 \<le> k \<and> k \<le> 3 \<and>
      net e (ID (nodes s ! ?a)) k = Do_ok StatusOK (Read_ok (Body res)) (Time res)"
    by auto
next
  fix res photo
  assume a: "apc s = A_parse res \<and> parse e (Body res) = Some photo"
  let ?s1 = "s\<lparr>apc := A_store res photo\<rparr>"
  let ?s2 = "s\<lparr>apc := A_select, photos := fmupd (Photo_ID photo) photo (photos s),
    consumed := consumed s @ [To_chr res]\<rparr>"
  from a have 1: "agg_step e s = Some ?s1" by (simp add: agg_step_def)
  have 2: "agg_step e ?s1 = Some ?s2" by (simp add: agg_step_def)
  have 3: "exec e [Agg, Agg] s = Some ?s2" if "mpc s \<noteq> M_exit \<and> \<not> panicked s"
    using that 1 2 by (simp add: step_def)
  from 1 2 3
  show "\<exists>s1 s2. agg_step e s = Some s1 \<and> agg_step e s1 = Some s2 \<and>
      apc s1 = A_store res photo \<and> photos s1 = photos s \<and>
      photos s2 = fmupd (Photo_ID photo) photo (photos s) \<and>
      fmlookup (photos s2) (Photo_ID photo) = Some photo \<and>
      apc s2 = A_select \<and> consumed s2 = consumed s @ [To_chr res] \<and>
      (mpc s \<noteq> M_exit \<and> \<not> panicked s \<longrightarrow> exec e [Agg, Agg] s = Some s2)"
    by (intro exI [of _ ?s1] exI [of _ ?s2]) simp
next
  fix res photo
  assume c: "To_chr res \<in> set (consumed s) \<and> parse e (Body res) = Some photo"
  from invs_exec [OF run] have st: "photos s = store_of e (consumed s)"
    by (simp add: store_inv_def)
  from c store_of_present [of res "consumed s" e photo]
  show "\<exists>photo'. fmlookup (photos s) (Photo_ID photo) = Some photo' \<and>
      Photo_ID photo' = Photo_ID photo"
    unfolding st by blast
next
  fix k photo assume "fmlookup (photos s) k = Some photo"
  with invs_exec [OF run] have "fmlookup (store_of e (consumed s)) k = Some photo"
    by (simp add: store_inv_def)
  from store_of_entry [OF this]
  show "Photo_ID photo = k"
    "\<exists>res. To_chr res \<in> set (consumed s) \<and> parse e (Body res) = Some photo"
    by blast+
qed

theorem store_keyed_by_payload_ID_witness:
  "(\<exists>s. exec (env_const 2 9) (seed 2 @ handled 0 @ handled 1 @ released 1 @ [Main]) init =
        Some s \<and>
      (1, To_chr \<lparr>Message = ''Success'', Body = photo_body 9, Time = 5\<rparr>) \<in> set (posted s) \<and>
      wnode (workers s ! 1) = 1 \<and> ID (nodes s ! 1) = 2 \<and>
      (\<exists>k. 0 \<le> k \<and> k \<le> 3 \<and>
         net (env_const 2 9) 2 k = Do_ok StatusOK (Read_ok (photo_body 9)) 5) \<and>
      (\<exists>photo res. fmlookup (photos s) 9 = Some photo \<and> Photo_ID photo = 9 \<and>
         To_chr res \<in> set (consumed s) \<and> parse (env_const 2 9) (Body res) = Some photo)) \<and>
   (\<exists>s s2. exec (env_const 2 9) (seed 2 @ [Worker 1, Worker 1]) init = Some s \<and>
      apc s = A_parse \<lparr>Message = ''Success'', Body = photo_body 9, Time = 5\<rparr> \<and>
      photos s = fmempty \<and>
      exec (env_const 2 9) [Agg, Agg] s = Some s2 \<and>
      photos s2 = fmupd 9 \<lparr>Photo_ID = 9, Title = [], Url = [], Thumbnail = []\<rparr> fmempty \<and>
      apc s2 = A_select)"
proof
  let ?r = "\<lparr>Message = ''Success'', Body = photo_body 9, Time = 5\<rparr>"
  have "case exec (env_const 2 9) (seed 2 @ handled 0 @ handled 1 @ released 1 @ [Main]) init of
      Some s \<Rightarrow> (1, To_chr ?r) \<in> set (posted s) \<and> wnode (workers s ! 1) = 1 \<and>
        ID (nodes s ! 1) = 2 \<and> fmlookup (photos s) 9 \<noteq> None
    | None \<Rightarrow> False"
    by code_simp
  then obtain s photo
    where run: "exec (env_const 2 9) (seed 2 @ handled 0 @ handled 1 @ released 1 @ [Main]) init =
      Some s"
    and s: "(1, To_chr ?r) \<in> set (posted s)" "wnode (workers s ! 1) = 1" "ID (nodes s ! 1) = 2"
      "fmlookup (photos s) 9 = Some photo"
    by (auto split: option.splits)
  note t = store_keyed_by_payload_ID [OF run]
  from t s(1) have "\<exists>k. 0 \<le> k \<and> k \<le> 3 \<and>
      net (env_const 2 9) (ID (nodes s ! wnode (workers s ! 1))) k =
        Do_ok StatusOK (Read_ok (photo_body 9)) 5"
    by fastforce
  with s(2,3) have n: "\<exists>k. 0 \<le> k \<and> k \<le> 3 \<and>
      net (env_const 2 9) 2 k = Do_ok StatusOK (Read_ok (photo_body 9)) 5"
    by simp
  from t s(4) have "Photo_ID photo = 9 \<and>
      (\<exists>res. To_chr res \<in> set (consumed s) \<and> parse (env_const 2 9) (Body res) = Some photo)"
    by blast
  with run s n
  show "\<exists>s. exec (env_const 2 9) (seed 2 @ handled 0 @ handled 1 @ released 1 @ [Main]) init =
        Some s \<and>
      (1, To_chr ?r) \<in> set (posted s) \<and>
      wnode (workers s ! 1) = 1 \<and> ID (nodes s ! 1) = 2 \<and>
      (\<exists>k. 0 \<le> k \<and> k \<le> 3 \<and>
         net (env_const 2 9) 2 k = Do_ok StatusOK (Read_ok (photo_body 9)) 5) \<and>
      (\<exists>photo res. fmlookup (photos s) 9 = Some photo \<and> Photo_ID photo = 9 \<and>
         To_chr res \<in> set (consumed s) \<and> parse (env_const 2 9) (Body res) = Some photo)"
    by blast
next
  let ?r = "\<lparr>Message = ''Success'', Body = photo_body 9, Time = 5\<rparr>"
  let ?p = "\<lparr>Photo_ID = 9, Title = [], Url = [], Thumbnail = []\<rparr>"
  have "case exec (env_const 2 9) (seed 2 @ [Worker 1, Worker 1]) init of
      Some s \<Rightarrow> apc s = A_parse ?r \<and> photos s = fmempty \<and> mpc s \<noteq> M_exit \<and> \<not> panicked s
    | None \<Rightarrow> False"
    by code_simp
  then obtain s
    where run: "exec (env_const 2 9) (seed 2 @ [Worker 1, Worker 1]) init = Some s"
    and s: "apc s = A_parse ?r" "photos s = fmempty" "mpc s \<noteq> M_exit" "\<not> panicked s"
    by (auto split: option.splits)
  have p: "parse (env_const 2 9) (Body ?r) = Some ?p"
    by (simp add: parse_def env_const_def)
  from store_keyed_by_payload_ID [OF run] s p
  obtain s2 where "exec (env_const 2 9) [Agg, Agg] s = Some s2"
    "photos s2 = fmupd (Photo_ID ?p) ?p (photos s)" "apc s2 = A_select"
    by blast
  with run s
  show "\<exists>s s2. exec (env_const 2 9) (seed 2 @ [Worker 1, Worker 1]) init = Some s \<and>
      apc s = A_parse ?r \<and> photos s = fmempty \<and>
      exec (env_const 2 9) [Agg, Agg] s = Some s2 \<and>
      photos s2 = fmupd 9 ?p fmempty \<and> apc s2 = A_select"
    by (intro exI [of _ s] exI [of _ s2]) simp
qed

section \<open>Parse failures (C6)\<close>

lemma asked_unparsed:
  assumes "asked e res"
    and "\<forall>ident k. \<exists>b t. net e ident k = Do_ok StatusOK (Read_ok b) t \<and> parse e b = None"
  shows "parse e (Body res) = None"
proof -
  from assms(1) obtain a k where m: "fetch_msg a (net e (int a + 1) k) = To_chr res"
    unfolding asked_def by blast
  from assms(2) obtain b t where "net e (int a + 1) k = Do_ok StatusOK (Read_ok b) t" "parse e b = None"
    by blast
  with m show ?thesis by (auto simp: fetch_msg_def)
qed

text \<open>
  C6: when the aggregator has received a response whose body does not parse, its next
  step goes back to the \<open>select\<close> and changes neither the map, nor the workers, nor the
  nodes, nor the counter, nor the output: the outcome is dropped, nothing is stored and
  no retry is started; the aggregator can take that step while the process runs (\<open>main\<close>
  has not returned and no goroutine has panicked).  With one identifier and a server whose every answer is a
  malformed body, in every state of every run the map is empty and at most one worker
  has been spawned, exactly one once \<open>main\<close> has left its spawning loop.
\<close>

theorem malformed_payload_dropped:
  assumes run: "exec e sched init = Some s"
  shows "(\<forall>res. apc s = A_parse res \<and> parse e (Body res) = None \<longrightarrow>
            (\<exists>s'. agg_step e s = Some s' \<and> photos s' = photos s \<and> workers s' = workers s \<and>
               nodes s' = nodes s \<and> wg s' = wg s \<and> out s' = out s \<and> apc s' = A_select \<and>
               (mpc s \<noteq> M_exit \<and> \<not> panicked s \<longrightarrow> step e s Agg = Some s'))) \<and>
         (requests e = 1 \<and>
            (\<forall>ident k. \<exists>b t. net e ident k = Do_ok StatusOK (Read_ok b) t \<and> parse e b = None) \<longrightarrow>
            photos s = fmempty \<and> length (workers s) \<le> 1 \<and>
            (\<not> spawning (mpc s) \<longrightarrow> length (workers s) = 1))"
proof (intro conjI allI impI)
  fix res
  assume a: "apc s = A_parse res \<and> parse e (Body res) = None"
  then show "\<exists>s'. agg_step e s = Some s' \<and> photos s' = photos s \<and> workers s' = workers s \<and>
      nodes s' = nodes s \<and> wg s' = wg s \<and> out s' = out s \<and> apc s' = A_select \<and>
      (mpc s \<noteq> M_exit \<and> \<not> panicked s \<longrightarrow> step e s Agg = Some s')"
    by (simp add: step_def agg_step_def)
next
  assume h: "requests e = 1 \<and>
    (\<forall>ident k. \<exists>b t. net e ident k = Do_ok StatusOK (Read_ok b) t \<and> parse e b = None)"
  note i = invs_exec [OF run]
  from i have wf: "wf_state e s" by (simp add: inv_def)
  have nf: "\<not> failure (net e ident k)" for ident k
  proof -
    from h obtain b t where "net e ident k = Do_ok StatusOK (Read_ok b) t" by blast
    then show ?thesis by (simp add: failure_def fetch_msg_def)
  qed
  from no_retry_exec [OF run nf] have l: "length (workers s) = length (nodes s)"
    by (simp add: no_retry_def)
  have "parse e (Body res) = None" if "To_chr res \<in> set (consumed s)" for res
    using asked_unparsed genuine_consumed [of e s res] i that h by blast
  then have "fmlookup (store_of e (consumed s)) k = None" for k
    by (intro store_of_absent) simp
  then have "store_of e (consumed s) = fmempty"
    by (intro fmap_ext) simp
  with i show "photos s = fmempty" by (simp add: store_inv_def)
  from l h wf_state_mpc(2) [OF wf] show "length (workers s) \<le> 1" by simp
  assume "\<not> spawning (mpc s)"
  then have "iterations e (mpc s) = requests e"
    by (cases "mpc s") (simp_all add: spawning_def)
  with l h wf_state_mpc(1) [OF wf] show "length (workers s) = 1" by simp
qed

theorem malformed_payload_dropped_witness:
  "(\<exists>s s'. exec env_malformed (seed 1 @ [Worker 0, Worker 0]) init = Some s \<and>
       apc s = A_parse \<lparr>Message = ''Success'', Body = [], Time = 5\<rparr> \<and>
       step env_malformed s Agg = Some s' \<and> photos s' = photos s \<and>
       workers s' = workers s \<and> wg s' = wg s \<and> apc s' = A_select) \<and>
   (\<exists>s. exec env_malformed (seed 1 @ handled 0 @ released 0 @ [Main]) init = Some s \<and>
       mpc s = M_exit \<and> photos s = fmempty \<and> length (workers s) = 1)"
proof
  let ?r = "\<lparr>Message = ''Success'', Body = [], Time = 5\<rparr>"
  have "case exec env_malformed (seed 1 @ [Worker 0, Worker 0]) init of
      Some s \<Rightarrow> apc s = A_parse ?r \<and> mpc s \<noteq> M_exit \<and> \<not> panicked s | None \<Rightarrow> False"
    by code_simp
  then obtain s where run: "exec env_malformed (seed 1 @ [Worker 0, Worker 0]) init = Some s"
    and s: "apc s = A_parse ?r" "mpc s \<noteq> M_exit" "\<not> panicked s"
    by (auto split: option.splits)
  have "parse env_malformed (Body ?r) = None"
    by (simp add: parse_def env_malformed_def photo_of_bytes_def)
  with s malformed_payload_dropped [OF run] run
  show "\<exists>s s'. exec env_malformed (seed 1 @ [Worker 0, Worker 0]) init = Some s \<and>
       apc s = A_parse ?r \<and> step env_malformed s Agg = Some s' \<and> photos s' = photos s \<and>
       workers s' = workers s \<and> wg s' = wg s \<and> apc s' = A_select"
    by blast
next
  have "case exec env_malformed (seed 1 @ handled 0 @ released 0 @ [Main]) init of
      Some s \<Rightarrow> mpc s = M_exit | None \<Rightarrow> False"
    by code_simp
  then obtain s
    where run: "exec env_malformed (seed 1 @ handled 0 @ released 0 @ [Main]) init = Some s"
    and s: "mpc s = M_exit"
    by (auto split: option.splits)
  have h: "requests env_malformed = 1 \<and>
    (\<forall>ident k. \<exists>b t. net env_malformed ident k = Do_ok StatusOK (Read_ok b) t \<and>
       parse env_malformed b = None)"
    by (simp add: env_malformed_def serve_def parse_def photo_of_bytes_def)
  from s have "\<not> spawning (mpc s)" by (simp add: spawning_def)
  with malformed_payload_dropped [OF run] h s run
  show "\<exists>s. exec env_malformed (seed 1 @ handled 0 @ released 0 @ [Main]) init = Some s \<and>
       mpc s = M_exit \<and> photos s = fmempty \<and> length (workers s) = 1"
    by blast
qed

section \<open>One message per worker (C7)\<close>

text \<open>
  What holds of every worker in every state of every run: it has handed over no message
  while it is before or at its send, and exactly one message (on \<open>chn\<close> or on \<open>chr\<close>)
  once it is past it; that message is the one \<open>fetch\<close> builds from the network's answer
  for the worker's own node; each of the failure conditions of \<open>fetch\<close> (request
  construction, transport or deadline, status other than 200, body read) gives the
  failure message with the node; and no step of a worker changes the nodes.
\<close>

lemma worker_posts_at_most_once:
  assumes run: "exec e sched init = Some s" and i: "i < length (workers s)"
  shows "length (posts_by i s) = (if pending (workers s ! i) then 0 else 1)"
    and "m \<in> set (posts_by i s) \<Longrightarrow> sent_by e s i m"
    and "To_chn a \<in> set (posts_by i s) \<Longrightarrow> a = wnode (workers s ! i)"
    and "step e s (Worker i) = Some s' \<Longrightarrow> nodes s' = nodes s"
proof -
  from invs_exec [OF run] have pi: "posts_inv s" by simp
  note po = posts_own_exec [OF run]
  show "length (posts_by i s) = (if pending (workers s ! i) then 0 else 1)"
    using pi i unfolding posts_inv_def by blast
  have own: "sent_by e s i m" if "m \<in> set (posts_by i s)" for m
  proof -
    from that have "(i, m) \<in> set (posted s)" by (simp add: posted_posts_by)
    with po show ?thesis unfolding posts_own_def by fastforce
  qed
  then show "m \<in> set (posts_by i s) \<Longrightarrow> sent_by e s i m" .
  show "a = wnode (workers s ! i)" if "To_chn a \<in> set (posts_by i s)"
    using own [OF that] fetch_msg_own [of "wnode (workers s ! i)" _ a]
    by (auto simp: sent_by_def)
  show "nodes s' = nodes s" if "step e s (Worker i) = Some s'"
    using that
    by (auto simp: step_def worker_step_def Let_def split: if_splits wpc.splits)
qed

lemma failure_conditions:
  "fetch_msg a NewRequest_error = To_chn a"
  "fetch_msg a Do_error = To_chn a"
  "status \<noteq> StatusOK \<Longrightarrow> fetch_msg a (Do_ok status body t) = To_chn a"
  "fetch_msg a (Do_ok StatusOK Read_error t) = To_chn a"
  by (simp_all add: fetch_msg_def)

text \<open>
  C7 fails on the code: not every worker started posts a message and returns.  With the
  \<open>requests = 4500\<close> of the source, photos 1 to 4499 fetched and stored and the request
  for photo 4500 failing, the last worker sends its node and calls \<open>wg.Done()\<close>, \<open>main\<close>
  is released, the aggregator handles the failure and starts a worker for the retry
  (\<open>go fetch(node, ...)\<close>), and \<open>main\<close> reports and returns.  The process has exited: the
  worker started for the retry has posted no message and takes no step, nor does any
  other goroutine.
\<close>

theorem retry_worker_never_posts:
  "\<exists>s. exec (env_last requests_default)
        (seed requests_default @ handled_upto 4499 @ hasty 4499 @ released 4499 @
         [Agg, Agg, Agg, Agg, Agg] @ [Main]) init = Some s \<and>
     mpc s = M_exit \<and> length (workers s) = 4501 \<and>
     workers s ! 4500 = \<lparr>wnode = 4499, wpc = W_fetch\<rparr> \<and>
     nodes s ! 4499 = \<lparr>ID = 4500, Attempts = 1\<rparr> \<and>
     posts_by 4500 s = [] \<and>
     (\<forall>a. step (env_last requests_default) s a = None)"
proof -
  let ?e = "env_last (Suc 4499)"
  let ?pre = "seed (Suc 4499) @ handled_upto 4499 @ hasty 4499 @ released 4499"
  from hasty_failure [of 4499] obtain s
    where run: "exec ?e ?pre init = Some s"
      and s: "mpc s = M_print" "wg s = 0" "apc s = A_inc 4499" "\<not> panicked s"
        "length (nodes s) = Suc 4499" "nodes s ! 4499 = \<lparr>ID = int 4499 + 1, Attempts = 0\<rparr>"
        "waiters s = 0"
      and l: "length (workers s) = Suc 4499" and p: "posts_by (Suc 4499) s = []"
    by auto
  let ?s1 = "s\<lparr>wg := 1, apc := A_select,
            nodes := (nodes s)[4499 := \<lparr>ID = int 4499 + 1, Attempts = 1\<rparr>],
            workers := workers s @ [\<lparr>wnode = 4499, wpc = W_fetch\<rparr>],
            out := out s @ [Retrying_line (int 4499 + 1) 1],
            consumed := consumed s @ [To_chn 4499]\<rparr>"
  let ?s2 = "?s1\<lparr>mpc := M_exit, out := out ?s1 @ print (photos ?s1)\<rparr>"
  have a: "exec ?e [Agg, Agg, Agg, Agg, Agg] s = Some ?s1"
    by (rule respawn_after_release [OF s])
  have b: "exec ?e [Main] ?s1 = Some ?s2"
    using s by (intro main_reports) simp_all
  from exec_appendI [OF run exec_appendI [OF a b]]
  have r: "exec ?e (?pre @ [Agg, Agg, Agg, Agg, Agg] @ [Main]) init = Some ?s2"
    by simp
  have w: "workers ?s2 ! 4500 = \<lparr>wnode = 4499, wpc = W_fetch\<rparr>"
    using l nth_append_length [of "workers s" "\<lparr>wnode = 4499, wpc = W_fetch\<rparr>" "[]"] by simp
  have n: "nodes ?s2 ! 4499 = \<lparr>ID = 4500, Attempts = 1\<rparr>"
    using s(5) by simp
  have q: "posts_by 4500 ?s2 = []"
    using p by (simp add: posts_by_def)
  have st: "\<forall>a. step ?e ?s2 a = None"
    by (simp add: step_def)
  from r w n q st l show ?thesis
    unfolding requests_default_Suc
    by (intro exI [of _ ?s2]) simp
qed

section \<open>The wait group and completion (C1, C2, C8, C9)\<close>

text \<open>
  C2 fails on the code: with the \<open>requests = 4500\<close> of the source, photos 1 to 4499 fetched
  and stored and the request for photo 4500 failing, after the last worker has sent its
  node and called \<open>wg.Done()\<close> and before the aggregator has taken its next step, the
  counter is 0 while 4500 workers have been spawned and 4499 outcomes have been consumed:
  the worker has made the decrement for its outcome (it is inside \<open>wg.Done()\<close>, past the
  subtraction) while the failure is in the aggregator's hand and the retry is not
  registered.
\<close>

theorem counter_zero_before_outcome_consumed:
  "\<exists>s. exec (env_last requests_default)
          (seed requests_default @ handled_upto 4499 @ hasty 4499) init = Some s \<and>
     wg s = 0 \<and> length (workers s) = 4500 \<and> length (consumed s) = 4499 \<and>
     workers s ! 4499 = \<lparr>wnode = 4499, wpc = W_release 1\<rparr> \<and>
     apc s = A_inc 4499 \<and> nodes s ! 4499 = \<lparr>ID = 4500, Attempts = 0\<rparr> \<and>
     wg s \<noteq> int (length (workers s)) - int (length (consumed s))"
proof -
  from hasty_counter [of 4499] obtain s
    where "exec (env_last (Suc 4499)) (seed (Suc 4499) @ handled_upto 4499 @ hasty 4499) init = Some s"
      "wg s = 0" "apc s = A_inc 4499" "length (workers s) = Suc 4499" "length (consumed s) = 4499"
      "workers s ! 4499 = \<lparr>wnode = 4499, wpc = W_release 1\<rparr>"
      "nodes s ! 4499 = \<lparr>ID = int 4499 + 1, Attempts = 0\<rparr>"
    by blast
  then show ?thesis
    by (intro exI [of _ s]) (simp add: requests_default_Suc)
qed

text \<open>
  In the same situation the wait group is misused, and the process can panic: when the
  aggregator reaches its \<open>wg.Add(1)\<close> while the worker is still inside \<open>wg.Done()\<close>, the
  call finds a waiter and a counter raised from zero (first run); when the worker has
  released \<open>main\<close> and the aggregator's \<open>wg.Add(1)\<close> comes before \<open>main\<close> wakes up, \<open>main\<close>
  finds the counter not zero (second run).
\<close>

lemma wait_group_misuse:
  "(\<exists>s. exec (env_last requests_default)
          (seed requests_default @ handled_upto 4499 @ hasty 4499 @ [Agg, Agg, Agg, Agg])
          init = Some s \<and> panicked s \<and> apc s = A_add 4499) \<and>
   (\<exists>s. exec (env_last requests_default)
          (seed requests_default @ handled_upto 4499 @ hasty 4499 @
           [Worker 4499, Agg, Agg, Agg, Agg, Agg, Main])
          init = Some s \<and> panicked s \<and> mpc s = M_blocked \<and> wg s = 1)"
proof -
  let ?e = "env_last (Suc 4499)"
  let ?pre = "seed (Suc 4499) @ handled_upto 4499 @ hasty 4499"
  from hasty_counter [of 4499] obtain s
    where run: "exec ?e ?pre init = Some s"
      and s: "mpc s = M_blocked" "wg s = 0" "waiters s = 1" "sema s = 0" "apc s = A_inc 4499"
        "\<not> panicked s" "length (workers s) = Suc 4499"
        "workers s ! 4499 = \<lparr>wnode = 4499, wpc = W_release 1\<rparr>"
        "length (nodes s) = Suc 4499" "nodes s ! 4499 = \<lparr>ID = int 4499 + 1, Attempts = 0\<rparr>"
    by blast
  from s have "\<exists>s1. exec ?e [Agg, Agg, Agg, Agg] s = Some s1 \<and> panicked s1 \<and> apc s1 = A_add 4499"
    by (simp add: step_def agg_step_def wg_Add_def)
  then obtain s1 where a: "exec ?e [Agg, Agg, Agg, Agg] s = Some s1" "panicked s1" "apc s1 = A_add 4499"
    by blast
  from s have "\<exists>s2. exec ?e [Worker 4499, Agg, Agg, Agg, Agg, Agg, Main] s = Some s2 \<and>
      panicked s2 \<and> mpc s2 = M_blocked \<and> wg s2 = 1"
    by (simp add: step_def agg_step_def worker_step_def main_step_def wg_Add_def wg_release_def
        wg_wake_def)
  then obtain s2 where b: "exec ?e [Worker 4499, Agg, Agg, Agg, Agg, Agg, Main] s = Some s2"
    "panicked s2" "mpc s2 = M_blocked" "wg s2 = 1"
    by blast
  from exec_appendI [OF run a(1)] exec_appendI [OF run b(1)] a b show ?thesis
    unfolding requests_default_Suc by auto
qed

text \<open>
  C1 fails on the code: with the \<open>requests = 4500\<close> of the source, photos 1 to 4499
  fetched and stored and the request for photo 4500 failing, the last worker sends its
  node and calls \<open>wg.Done()\<close>; the counter is 0, \<open>wg.Wait()\<close> returns, and \<open>main\<close> reports
  and exits while the aggregator still holds the failure and has not registered the
  retry (first run).  If the aggregator goes on before \<open>main\<close> reports, a new worker for
  photo 4500 is pending and the counter is 1 while \<open>main\<close> is past \<open>wg.Wait()\<close> (second
  run).
\<close>

theorem completion_with_respawn_pending:
  "(\<exists>s. exec (env_last requests_default)
          (seed requests_default @ handled_upto 4499 @ hasty 4499 @ released 4499 @ [Main])
          init = Some s \<and>
        mpc s = M_exit \<and> wg s = 0 \<and> apc s = A_inc 4499 \<and>
        length (workers s) = 4500 \<and> length (consumed s) = 4499 \<and>
        nodes s ! 4499 = \<lparr>ID = 4500, Attempts = 0\<rparr>) \<and>
   (\<exists>s. exec (env_last requests_default)
          (seed requests_default @ handled_upto 4499 @ hasty 4499 @ released 4499 @
           [Agg, Agg, Agg, Agg, Agg])
          init = Some s \<and>
        mpc s = M_print \<and> wg s = 1 \<and> apc s = A_select \<and>
        length (workers s) = 4501 \<and> workers s ! 4500 = \<lparr>wnode = 4499, wpc = W_fetch\<rparr>)"
proof -
  let ?e = "env_last (Suc 4499)"
  let ?pre = "seed (Suc 4499) @ handled_upto 4499 @ hasty 4499 @ released 4499"
  from hasty_failure [of 4499] obtain s
    where run: "exec ?e ?pre init = Some s"
      and s: "mpc s = M_print" "wg s = 0" "apc s = A_inc 4499" "\<not> panicked s"
        "length (nodes s) = Suc 4499" "nodes s ! 4499 = \<lparr>ID = int 4499 + 1, Attempts = 0\<rparr>"
        "waiters s = 0"
      and l: "length (workers s) = Suc 4499" "length (consumed s) = 4499"
    by auto
  from exec_appendI [OF run main_reports [OF s(1,4), of ?e]]
  have a: "exec ?e (?pre @ [Main]) init = Some (s\<lparr>mpc := M_exit, out := out s @ print (photos s)\<rparr>)" .
  from exec_appendI [OF run respawn_after_release [OF s, of ?e]]
  have b: "exec ?e (?pre @ [Agg, Agg, Agg, Agg, Agg]) init =
    Some (s\<lparr>wg := 1, apc := A_select,
            nodes := (nodes s)[4499 := \<lparr>ID = int 4499 + 1, Attempts = 1\<rparr>],
            workers := workers s @ [\<lparr>wnode = 4499, wpc = W_fetch\<rparr>],
            out := out s @ [Retrying_line (int 4499 + 1) 1],
            consumed := consumed s @ [To_chn 4499]\<rparr>)" .
  have w: "(workers s @ [\<lparr>wnode = 4499, wpc = W_fetch\<rparr>]) ! 4500 = \<lparr>wnode = 4499, wpc = W_fetch\<rparr>"
    using l(1) nth_append_length [of "workers s" "\<lparr>wnode = 4499, wpc = W_fetch\<rparr>" "[]"] by simp
  from a b s l w show ?thesis
    by (simp add: requests_default_Suc)
qed

text \<open>
  C8 fails on the code: with five identifiers, the requests for 2 and 4 always failing
  and those for 1, 3 and 5 answered with the photo asked for, when the worker for
  identifier 5 calls \<open>wg.Done()\<close> before the aggregator has stored its photo, \<open>main\<close>
  reports and exits with a map that holds 1 and 3 only (first run); when every worker
  calls \<open>wg.Done()\<close> after the aggregator has handled its message, the map holds 1, 3
  and 5 (second run).
\<close>

theorem five_identifiers_hasty_run:
  "map_option (\<lambda>s. (mpc s, keys s, apc s, map Attempts (nodes s)))
     (exec env_five
        (seed 5 @ handled 0 @ handled 2 @ retried 1 @ retried 3 @ retried 5 @ retried 6 @
         retried 7 @ retried 8 @ handled 9 @ handled 10 @ hasty 4 @ released 4 @ [Main]) init) =
     Some (M_exit, [1, 3], A_parse \<lparr>Message = ''Success'', Body = photo_body 5, Time = 5\<rparr>,
       [0, 4, 0, 4, 0]) \<and>
   map_option (\<lambda>s. (mpc s, keys s, apc s, map Attempts (nodes s)))
     (exec env_five
        (seed 5 @ handled 0 @ handled 2 @ retried 1 @ retried 3 @ retried 5 @ retried 6 @
         retried 7 @ retried 8 @ handled 9 @ handled 10 @ handled 4 @ released 4 @ [Main]) init) =
     Some (M_exit, [1, 3, 5], A_select, [0, 4, 0, 4, 0])"
  by code_simp

text \<open>
  C9 fails on the code: with the \<open>requests = 4500\<close> of the source and a server that always
  answers with the photo asked for, one run exits with photo 4500 in the map and
  another, in which the last worker calls \<open>wg.Done()\<close> before the aggregator parses and
  stores its response, exits without it.
\<close>

theorem two_runs_two_stores:
  "\<exists>s1 s2.
     exec (env_echo requests_default)
       (seed requests_default @ handled_upto 4499 @ handled 4499 @ released 4499 @ [Main])
       init = Some s1 \<and>
     exec (env_echo requests_default)
       (seed requests_default @ handled_upto 4499 @ hasty 4499 @ released 4499 @ [Main])
       init = Some s2 \<and>
     mpc s1 = M_exit \<and> mpc s2 = M_exit \<and>
     fmlookup (photos s1) 4500 = Some \<lparr>Photo_ID = 4500, Title = [], Url = [], Thumbnail = []\<rparr> \<and>
     fmlookup (photos s2) 4500 = None \<and>
     apc s2 = A_parse \<lparr>Message = ''Success'', Body = photo_body 4500, Time = 5\<rparr>"
proof -
  let ?e = "env_echo (Suc 4499)"
  let ?r = "\<lparr>Message = ''Success'', Body = photo_body (Suc 4499), Time = 5\<rparr>"
  let ?p = "\<lparr>Photo_ID = int 4499 + 1, Title = [], Url = [], Thumbnail = []\<rparr>"
  have "requests ?e = Suc 4499" by (simp add: env_echo_def)
  from all_but_last [OF this] env_echo_others obtain s0
    where s0: "exec ?e (seed (Suc 4499) @ handled_upto 4499) init = Some s0" "ready (Suc 4499) 4499 s0"
    by blast
  from s0(2) have np: "\<not> panicked s0" unfolding ready_def by simp
  note none = ready_absent [OF s0(2)]
  from env_echo_all [of 4499 "Suc 4499"]
  have m: "fetch_msg 4499 (net ?e (int 4499 + 1) 0) = To_chr ?r" and p: "parse ?e (Body ?r) = Some ?p"
    by simp_all
  let ?s1 = "s0\<lparr>mpc := M_print, wg := 0, waiters := 0,
            workers := (workers s0)[4499 := \<lparr>wnode = 4499, wpc = W_exit\<rparr>],
            apc := A_select,
            photos := fmupd (Photo_ID ?p) ?p (photos s0),
            posted := posted s0 @ [(4499, To_chr ?r)],
            consumed := consumed s0 @ [To_chr ?r]\<rparr>"
  let ?s2 = "s0\<lparr>mpc := M_print, wg := 0, waiters := 0,
            workers := (workers s0)[4499 := \<lparr>wnode = 4499, wpc = W_exit\<rparr>],
            apc := receive (fetch_msg 4499 (net ?e (int 4499 + 1) 0)),
            posted := posted s0 @ [(4499, fetch_msg 4499 (net ?e (int 4499 + 1) 0))]\<rparr>"
  have h1: "exec ?e (handled 4499 @ released 4499) s0 = Some ?s1"
    by (rule handled_last [OF s0(2) m p])
  have h2: "exec ?e (hasty 4499 @ released 4499) s0 = Some ?s2" by (rule hasty_last [OF s0(2)])
  have r1: "exec ?e [Main] ?s1 = Some (?s1\<lparr>mpc := M_exit, out := out ?s1 @ print (photos ?s1)\<rparr>)"
    using np by (intro main_reports) simp_all
  have r2: "exec ?e [Main] ?s2 = Some (?s2\<lparr>mpc := M_exit, out := out ?s2 @ print (photos ?s2)\<rparr>)"
    using np by (intro main_reports) simp_all
  from exec_appendI [OF s0(1) exec_appendI [OF h1 r1]]
  have a: "exec ?e (seed (Suc 4499) @ handled_upto 4499 @ handled 4499 @ released 4499 @ [Main])
      init = Some (?s1\<lparr>mpc := M_exit, out := out ?s1 @ print (photos ?s1)\<rparr>)"
    by simp
  from exec_appendI [OF s0(1) exec_appendI [OF h2 r2]]
  have b: "exec ?e (seed (Suc 4499) @ handled_upto 4499 @ hasty 4499 @ released 4499 @ [Main])
      init = Some (?s2\<lparr>mpc := M_exit, out := out ?s2 @ print (photos ?s2)\<rparr>)"
    by simp
  from a b none m show ?thesis
    by (simp add: requests_default_Suc receive_def)
qed

end
